theory Spec2Isabelle
  imports Main "HOL-Library.Multiset"
begin

section \<open>Line transposition in a text area: the model\<close>

text \<open>
  The hook \<open>useHandlePromptLine\<close> moves or copies the lines touched by the selection of
  a text area. Its function \<open>moveSelectedLine(direction, shouldCopy)\<close> reads the text
  (\<open>value\<close>) and the selection offsets of the focused element, may return early, and
  otherwise hands a new text to \<open>onChange\<close> and, in an animation-frame callback, a new
  selection to \<open>setSelectionRange\<close> and a new scroll position to \<open>scrollTo\<close>.

  JavaScript numbers that hold offsets and line numbers are modelled as \<open>int\<close>, a
  string as a list of characters (one \<open>char\<close> per code unit), an array as a list.
  The last part of the callback (source lines 179 to 207) computes the scroll position
  in floating point, where the rounding of the division and of the products decides
  which branch is taken; it is left out of the model.
\<close>

subsection \<open>Built-in string and array operations\<close>

datatype Direction = Up | Down

definition newline :: char where
  "newline = CHR 0x0A"

text \<open>\<open>s.split("\n")\<close>: the pieces between the newlines; never an empty array.\<close>

fun split_nl :: "string \<Rightarrow> string list" where
  "split_nl [] = [[]]"
| "split_nl (c # cs) =
     (if c = newline then [] # split_nl cs
      else (c # hd (split_nl cs)) # tl (split_nl cs))"

text \<open>\<open>a.join("\n")\<close>.\<close>

fun join_nl :: "string list \<Rightarrow> string" where
  "join_nl [] = []"
| "join_nl [l] = l"
| "join_nl (l # m # ls) = l @ newline # join_nl (m # ls)"

text \<open>\<open>s.substring(0, n)\<close>: a negative \<open>n\<close> counts as 0, one beyond the length as the length.\<close>

definition substring0 :: "string \<Rightarrow> int \<Rightarrow> string" where
  "substring0 s n = take (nat n) s"

text \<open>
  The relative index of \<open>slice\<close> and \<open>splice\<close>: a negative index counts from the end,
  and the result is clamped to \<open>[0, len]\<close>.
\<close>

definition rel_index :: "int \<Rightarrow> int \<Rightarrow> int" where
  "rel_index len i = (if i < 0 then max (len + i) 0 else min i len)"

text \<open>\<open>a.slice(start, end)\<close>.\<close>

definition js_slice :: "'a list \<Rightarrow> int \<Rightarrow> int \<Rightarrow> 'a list" where
  "js_slice xs start end =
     (let len = int (length xs);
          k = rel_index len start;
          f = rel_index len end
      in take (nat (f - k)) (drop (nat k) xs))"

text \<open>
  \<open>a.splice(start, deleteCount, ...items)\<close>: the pair of the removed elements (the value
  returned) and the array after the call.
\<close>

definition js_splice :: "'a list \<Rightarrow> int \<Rightarrow> int \<Rightarrow> 'a list \<Rightarrow> 'a list \<times> 'a list" where
  "js_splice xs start deleteCount items =
     (let len = int (length xs);
          s = rel_index len start;
          d = min (max deleteCount 0) (len - s)
      in (take (nat d) (drop (nat s) xs),
          take (nat s) xs @ items @ drop (nat (s + d)) xs))"

text \<open>\<open>a[i]\<close>: \<open>None\<close> stands for \<open>undefined\<close>, the value of an index out of range.\<close>

definition js_at :: "'a list \<Rightarrow> int \<Rightarrow> 'a option" where
  "js_at xs i = (if 0 \<le> i \<and> i < int (length xs) then Some (xs ! nat i) else None)"

subsection \<open>The line index\<close>

text \<open>
  The table of line offsets, as the \<open>reduce\<close> builds it: the entry of line 0 is 0, the
  entry of line \<open>i\<close> is the entry before it plus the length of line \<open>i - 1\<close> plus 1.
  The accumulator holds \<open>i\<close> entries when index \<open>i\<close> is visited, so \<open>acc[i - 1]\<close> is
  in range.
\<close>

definition lineOffsets :: "string list \<Rightarrow> int list" where
  "lineOffsets lines =
     fold (\<lambda>i acc. acc @ [if i = 0 then 0
                            else acc ! (i - 1) + int (length (lines ! (i - 1))) + 1])
          [0..<length lines] []"

text \<open>
  The line number of an offset: \<open>value.substring(0, offset).split("\n").length - 1\<close>.
\<close>

definition lineNumberAt :: "string \<Rightarrow> int \<Rightarrow> int" where
  "lineNumberAt v offset = int (length (split_nl (substring0 v offset))) - 1"

subsection \<open>The transposition (source lines 94 to 132)\<close>

text \<open>
  The array \<open>newLines\<close> after the branch on \<open>shouldCopy\<close>. In the single-line move the
  two indices of the destructuring swap are in range (lemma \<open>swap_indices_in_range\<close>),
  so the assignment never extends the array.
\<close>

definition transposeLines ::
  "string list \<Rightarrow> int \<Rightarrow> int \<Rightarrow> Direction \<Rightarrow> bool \<Rightarrow> string list" where
  "transposeLines lines startLineNumber endLineNumber direction shouldCopy =
     (let isMultiLineSelection = (startLineNumber \<noteq> endLineNumber);
          newLines = lines;
          swapIndex = (if direction = Up then startLineNumber - 1 else endLineNumber + 1)
      in if shouldCopy then
           (if isMultiLineSelection then
              (let selectedLines = js_slice newLines startLineNumber (endLineNumber + 1);
                   insertPosition = (if direction = Up then startLineNumber
                                     else endLineNumber + 1)
               in snd (js_splice newLines insertPosition 0 selectedLines))
            else
              (let insertPosition = (if direction = Up then startLineNumber
                                     else startLineNumber + 1)
               in snd (js_splice newLines insertPosition 0
                        [newLines ! nat startLineNumber])))
         else
           (if isMultiLineSelection then
              (let (selectedLines, rest) =
                     js_splice newLines startLineNumber
                       (endLineNumber - startLineNumber + 1) []
               in snd (js_splice rest
                        (if direction = Up then swapIndex
                         else swapIndex - int (length selectedLines) + 1)
                        0 selectedLines))
            else
              newLines[nat startLineNumber := newLines ! nat swapIndex,
                       nat swapIndex := newLines ! nat startLineNumber]))"

subsection \<open>The new selection (source lines 140 to 177)\<close>

definition newStartLine :: "int \<Rightarrow> Direction \<Rightarrow> bool \<Rightarrow> int" where
  "newStartLine startLineNumber direction shouldCopy =
     (if shouldCopy then (if direction = Up then startLineNumber else startLineNumber + 1)
      else if direction = Up then startLineNumber - 1 else startLineNumber + 1)"

definition newEndLine :: "int \<Rightarrow> Direction \<Rightarrow> bool \<Rightarrow> int" where
  "newEndLine endLineNumber direction shouldCopy =
     (if shouldCopy then (if direction = Up then endLineNumber else endLineNumber + 1)
      else if direction = Up then endLineNumber - 1 else endLineNumber + 1)"

text \<open>
  The arguments of \<open>setSelectionRange\<close>. Reading \<open>.length\<close> of \<open>newLines[newStartLine]\<close>
  or of \<open>newLines[newEndLine]\<close> throws a TypeError when the index is out of range; the
  callback then ends before \<open>setSelectionRange\<close>, and the result is \<open>None\<close>. The table
  \<open>newLineOffsets\<close> is as long as \<open>newLines\<close>, so its entries exist whenever the lines do.
\<close>

definition remapSelection ::
  "string list \<Rightarrow> int \<Rightarrow> int \<Rightarrow> bool \<Rightarrow> int \<Rightarrow> int \<Rightarrow> Direction \<Rightarrow> bool
     \<Rightarrow> (int \<times> int) option" where
  "remapSelection newLines startLineNumber endLineNumber isMultiLineSelection
       selectionStartOffset selectionEndOffset direction shouldCopy =
     (let newLineOffsets = lineOffsets newLines;
          nsl = newStartLine startLineNumber direction shouldCopy;
          nel = newEndLine endLineNumber direction shouldCopy
      in case js_at newLines nsl of
           None \<Rightarrow> None
         | Some startLine \<Rightarrow>
             (case js_at newLines nel of
                None \<Rightarrow> None
              | Some endLine \<Rightarrow>
                  (let newSelectionStart = newLineOffsets ! nat nsl + selectionStartOffset;
                       newSelectionEnd =
                         (if isMultiLineSelection
                          then newLineOffsets ! nat nel + selectionEndOffset
                          else newSelectionStart);
                       finalSelectionStart =
                         min newSelectionStart
                             (newLineOffsets ! nat nsl + int (length startLine));
                       finalSelectionEnd =
                         min newSelectionEnd
                             (newLineOffsets ! nat nel + int (length endLine))
                   in Some (finalSelectionStart, finalSelectionEnd))))"

subsection \<open>The operation\<close>

text \<open>
  What one call hands to the host: the text given to \<open>onChange\<close> and the pair given to
  \<open>setSelectionRange\<close> (\<open>None\<close> when the callback throws before it).
\<close>

record outcome =
  newValue :: string
  selection :: "(int \<times> int) option"

text \<open>
  \<open>moveSelectedLine\<close>. The result \<open>None\<close> is the early \<open>return\<close> of the boundary test:
  neither \<open>onChange\<close> nor \<open>setSelectionRange\<close> is called, and the text and the selection
  of the host stay what they were. The indices \<open>lineOffsets[startLineNumber]\<close> and
  \<open>lineOffsets[endLineNumber]\<close> are in range (lemma \<open>lineNumberAt_range\<close>).
\<close>

definition moveSelectedLine ::
  "string \<Rightarrow> int \<Rightarrow> int \<Rightarrow> Direction \<Rightarrow> bool \<Rightarrow> outcome option" where
  "moveSelectedLine v selectionStart selectionEnd direction shouldCopy =
     (let lines = split_nl v;
          startLineNumber = lineNumberAt v selectionStart;
          endLineNumber = lineNumberAt v selectionEnd
      in if \<not> shouldCopy \<and>
            ((direction = Up \<and> startLineNumber = 0) \<or>
             (direction = Down \<and> endLineNumber = int (length lines) - 1))
         then None
         else
           (let offsets = lineOffsets lines;
                isMultiLineSelection = (startLineNumber \<noteq> endLineNumber);
                selectionStartOffset = selectionStart - offsets ! nat startLineNumber;
                selectionEndOffset = selectionEnd - offsets ! nat endLineNumber;
                newLines = transposeLines lines startLineNumber endLineNumber
                             direction shouldCopy
            in Some \<lparr> newValue = join_nl newLines,
                      selection = remapSelection newLines startLineNumber endLineNumber
                                    isMultiLineSelection selectionStartOffset
                                    selectionEndOffset direction shouldCopy \<rparr>))"

subsection \<open>Auxiliary notions of the proofs\<close>

text \<open>
  The offset of the first character of line \<open>i\<close>: every line before it counts with its
  length and its newline. The table \<open>lineOffsets\<close> holds these values (lemma
  \<open>lineOffsets_nth\<close>).
\<close>

definition offsetOfLine :: "string list \<Rightarrow> nat \<Rightarrow> nat" where
  "offsetOfLine ls i = (\<Sum>l\<leftarrow>take i ls. length l + 1)"

text \<open>A well-formed array of lines: not empty, and no line holds a newline.\<close>

definition wf_lines :: "string list \<Rightarrow> bool" where
  "wf_lines ls = (ls \<noteq> [] \<and> list_all (\<lambda>l. newline \<notin> set l) ls)"

section \<open>Splitting and joining\<close>

lemma split_nl_nonempty [simp]: "split_nl v \<noteq> []"
  by (induction v) auto

lemma length_split_nl_pos [simp]: "0 < length (split_nl v)"
  by (simp add: length_greater_0_conv)

lemma join_nl_Cons: "ls \<noteq> [] \<Longrightarrow> join_nl (l # ls) = l @ newline # join_nl ls"
  by (cases ls) auto

lemma join_split [simp]: "join_nl (split_nl v) = v"
proof (induction v)
  case Nil
  show ?case by simp
next
  case (Cons c cs)
  show ?case
  proof (cases "c = newline")
    case True
    then show ?thesis using Cons by (simp add: join_nl_Cons)
  next
    case False
    obtain l ls where e: "split_nl cs = l # ls" by (cases "split_nl cs") auto
    from Cons e have "join_nl (l # ls) = cs" by simp
    then have "join_nl ((c # l) # ls) = c # cs" by (cases ls) auto
    with False e show ?thesis by simp
  qed
qed

lemma split_no_newline: "l \<in> set (split_nl v) \<Longrightarrow> newline \<notin> set l"
proof (induction v arbitrary: l)
  case Nil
  then show ?case by simp
next
  case (Cons c cs)
  obtain m ms where e: "split_nl cs = m # ms" by (cases "split_nl cs") auto
  show ?case
  proof (cases "c = newline")
    case True
    with Cons show ?thesis by auto
  next
    case False
    with Cons.prems e have "l = c # m \<or> l \<in> set ms" by auto
    then show ?thesis
    proof
      assume "l = c # m"
      moreover have "newline \<notin> set m" using Cons.IH [of m] e by simp
      ultimately show ?thesis using False by auto
    next
      assume "l \<in> set ms"
      then show ?thesis using Cons.IH [of l] e by simp
    qed
  qed
qed

lemma split_nl_line: "newline \<notin> set l \<Longrightarrow> split_nl l = [l]"
  by (induction l) auto

lemma split_nl_line_append:
  "newline \<notin> set l \<Longrightarrow> split_nl (l @ newline # r) = l # split_nl r"
  by (induction l) auto

lemma split_join:
  "ls \<noteq> [] \<Longrightarrow> \<forall>l \<in> set ls. newline \<notin> set l \<Longrightarrow> split_nl (join_nl ls) = ls"
proof (induction ls rule: join_nl.induct)
  case 1
  then show ?case by simp
next
  case (2 l)
  then show ?case by (simp add: split_nl_line)
next
  case (3 l m ls)
  then show ?case by (simp add: split_nl_line_append)
qed

lemma join_nl_append:
  "xs \<noteq> [] \<Longrightarrow> ys \<noteq> [] \<Longrightarrow> join_nl (xs @ ys) = join_nl xs @ newline # join_nl ys"
proof (induction xs rule: join_nl.induct)
  case 1
  then show ?case by simp
next
  case (2 l)
  then show ?case by (simp add: join_nl_Cons)
next
  case (3 l m ls)
  then show ?case by simp
qed

section \<open>The table of line offsets\<close>

lemma offsetOfLine_0 [simp]: "offsetOfLine ls 0 = 0"
  by (simp add: offsetOfLine_def)

lemma offsetOfLine_Cons_Suc [simp]:
  "offsetOfLine (l # ls) (Suc i) = length l + 1 + offsetOfLine ls i"
  by (simp add: offsetOfLine_def)

lemma offsetOfLine_Suc:
  "i < length ls \<Longrightarrow> offsetOfLine ls (Suc i) = offsetOfLine ls i + length (ls ! i) + 1"
  by (simp add: offsetOfLine_def take_Suc_conv_app_nth)

lemma offsetOfLine_append1:
  "i \<le> length xs \<Longrightarrow> offsetOfLine (xs @ ys) i = offsetOfLine xs i"
  by (simp add: offsetOfLine_def)

lemma offsetOfLine_append2:
  "offsetOfLine (xs @ ys) (length xs + i) = offsetOfLine xs (length xs) + offsetOfLine ys i"
  by (simp add: offsetOfLine_def)

lemma offsetOfLine_snoc:
  "offsetOfLine (xs @ [y]) (Suc (length xs)) = offsetOfLine xs (length xs) + Suc (length y)"
  by (simp add: offsetOfLine_def)

lemma offsetOfLine_mono: "i \<le> j \<Longrightarrow> offsetOfLine ls i \<le> offsetOfLine ls j"
proof -
  assume "i \<le> j"
  then have "take j ls = take i ls @ take (j - i) (drop i ls)"
    by (metis le_add_diff_inverse take_add)
  then show ?thesis by (simp add: offsetOfLine_def)
qed

lemma lineOffsets_step:
  assumes "n < length ls"
  shows "(if n = 0 then 0
          else int (offsetOfLine ls (n - 1)) + int (length (ls ! (n - 1))) + 1)
         = int (offsetOfLine ls n)"
proof (cases n)
  case 0
  then show ?thesis by simp
next
  case (Suc m)
  with assms have m: "m < length ls" by simp
  with Suc offsetOfLine_Suc [OF m] show ?thesis by simp
qed

lemma lineOffsets_fold:
  "n \<le> length ls \<Longrightarrow>
   fold (\<lambda>i acc. acc @ [if i = 0 then 0
                          else acc ! (i - 1) + int (length (ls ! (i - 1))) + 1])
        [0..<n] [] = map (\<lambda>i. int (offsetOfLine ls i)) [0..<n]"
proof (induction n)
  case 0
  show ?case by simp
next
  case (Suc n)
  then have n: "n < length ls" by simp
  from Suc have IH: "fold (\<lambda>i acc. acc @ [if i = 0 then 0
                          else acc ! (i - 1) + int (length (ls ! (i - 1))) + 1])
        [0..<n] [] = map (\<lambda>i. int (offsetOfLine ls i)) [0..<n]" by simp
  show ?case
    using lineOffsets_step [OF n] by (auto simp: IH nth_append split: if_splits)
qed

lemma length_lineOffsets [simp]: "length (lineOffsets ls) = length ls"
  by (simp add: lineOffsets_def lineOffsets_fold)

lemma lineOffsets_nth: "i < length ls \<Longrightarrow> lineOffsets ls ! i = int (offsetOfLine ls i)"
  by (simp add: lineOffsets_def lineOffsets_fold)

lemma length_join_nl:
  "ls \<noteq> [] \<Longrightarrow> Suc (length (join_nl ls)) = offsetOfLine ls (length ls)"
proof (induction ls rule: join_nl.induct)
  case 1
  then show ?case by simp
next
  case (2 l)
  show ?case by (simp add: offsetOfLine_def)
next
  case (3 l m ls)
  then show ?case by (simp add: offsetOfLine_def)
qed

section \<open>Line numbers of offsets\<close>

lemma split_nl_append:
  "split_nl (xs @ ys) =
     butlast (split_nl xs) @ (last (split_nl xs) @ hd (split_nl ys)) # tl (split_nl ys)"
proof (induction xs)
  case Nil
  show ?case by simp
next
  case (Cons c xs)
  obtain p ps where P: "split_nl xs = p # ps" by (cases "split_nl xs") auto
  show ?case
  proof (cases "c = newline")
    case True
    then show ?thesis using Cons by simp
  next
    case False
    show ?thesis
    proof (cases ps)
      case Nil
      with False P Cons show ?thesis by simp
    next
      case (Cons p' ps')
      with False P Cons.IH show ?thesis by simp
    qed
  qed
qed

lemma length_split_nl_append:
  "Suc (length (split_nl (xs @ ys))) = length (split_nl xs) + length (split_nl ys)"
proof -
  have "length (split_nl xs) = Suc (length (butlast (split_nl xs)))" by simp
  moreover have "length (split_nl ys) = Suc (length (tl (split_nl ys)))" by simp
  ultimately show ?thesis by (simp add: split_nl_append)
qed

lemma length_split_nl_take: "length (split_nl (take k v)) \<le> length (split_nl v)"
proof -
  have "Suc (length (split_nl (take k v @ drop k v))) =
          length (split_nl (take k v)) + length (split_nl (drop k v))"
    by (rule length_split_nl_append)
  moreover have "0 < length (split_nl (drop k v))" by simp
  ultimately show ?thesis unfolding append_take_drop_id by linarith
qed

lemma lineNumberAt_range:
  "0 \<le> lineNumberAt v n \<and> lineNumberAt v n < int (length (split_nl v))"
  using length_split_nl_take [of "nat n" v] length_split_nl_pos [of "take (nat n) v"]
  unfolding lineNumberAt_def substring0_def by linarith

lemma lineNumberAt_mono: "s \<le> e \<Longrightarrow> lineNumberAt v s \<le> lineNumberAt v e"
proof -
  assume "s \<le> e"
  then have "take (nat s) v = take (nat s) (take (nat e) v)" by (simp add: min_def)
  then show ?thesis
    using length_split_nl_take [of "nat s" "take (nat e) v"]
    unfolding lineNumberAt_def substring0_def by simp
qed

text \<open>
  The indices of the swap of a single-line move: once the boundary test has passed,
  the start line and \<open>swapIndex\<close> are both lines of the text.
\<close>

lemma swap_indices_in_range:
  assumes "lineNumberAt v s = lineNumberAt v e"
    and "\<not> (direction = Up \<and> lineNumberAt v s = 0 \<or>
            direction = Down \<and> lineNumberAt v e = int (length (split_nl v)) - 1)"
  shows "0 \<le> lineNumberAt v s \<and> lineNumberAt v s < int (length (split_nl v)) \<and>
         0 \<le> (if direction = Up then lineNumberAt v s - 1 else lineNumberAt v e + 1) \<and>
         (if direction = Up then lineNumberAt v s - 1 else lineNumberAt v e + 1)
           < int (length (split_nl v))"
  using assms lineNumberAt_range [of v s] by (cases direction) auto

section \<open>Offsets and positions in well-formed line arrays\<close>

lemma wf_lines_split [simp]: "wf_lines (split_nl v)"
  by (auto simp: wf_lines_def list_all_iff dest: split_no_newline)

lemma split_join_wf: "wf_lines ls \<Longrightarrow> split_nl (join_nl ls) = ls"
  by (simp add: wf_lines_def list_all_iff split_join)

lemma wf_lines_perm: "wf_lines xs \<Longrightarrow> mset ys = mset xs \<Longrightarrow> wf_lines ys"
proof -
  assume w: "wf_lines xs" and m: "mset ys = mset xs"
  from m have "set ys = set xs" by (rule mset_eq_setD)
  moreover from m have "length ys = length xs" by (rule mset_eq_length)
  ultimately show ?thesis using w by (auto simp: wf_lines_def list_all_iff)
qed

text \<open>An offset inside the text lies on a line, at a column within the line.\<close>

lemma locate_offset:
  assumes "n \<le> length v"
  shows "\<exists>a c. lineNumberAt v (int n) = int a \<and> a < length (split_nl v) \<and>
               n = offsetOfLine (split_nl v) a + c \<and> c \<le> length (split_nl v ! a)"
proof -
  obtain Q y where P: "split_nl (take n v) = Q @ [y]"
    using split_nl_nonempty [of "take n v"] by (metis rev_exhaust)
  define R where "R = split_nl (drop n v)"
  have ls: "split_nl v = Q @ (y @ hd R) # tl R"
    using split_nl_append [of "take n v" "drop n v"] by (simp add: P R_def)
  have line: "lineNumberAt v (int n) = int (length Q)"
    by (simp add: lineNumberAt_def substring0_def P)
  have lt: "length Q < length (split_nl v)" by (simp add: ls)
  have nth: "split_nl v ! length Q = y @ hd R" by (simp add: ls)
  have "join_nl (Q @ [y]) = take n v" using join_split [of "take n v"] unfolding P .
  then have "length (join_nl (Q @ [y])) = n" using assms by simp
  then have "Suc n = offsetOfLine (Q @ [y]) (Suc (length Q))"
    using length_join_nl [of "Q @ [y]"] by simp
  then have "n = offsetOfLine Q (length Q) + length y"
    unfolding offsetOfLine_snoc by simp
  moreover have "offsetOfLine (split_nl v) (length Q) = offsetOfLine Q (length Q)"
    by (simp add: ls offsetOfLine_append1)
  ultimately have "n = offsetOfLine (split_nl v) (length Q) + length y" by simp
  moreover have "length y \<le> length (split_nl v ! length Q)" by (simp add: nth)
  ultimately show ?thesis using line lt by blast
qed

text \<open>Conversely, a column within line \<open>i\<close> is an offset whose line number is \<open>i\<close>.\<close>

lemma split_nl_take_position:
  "list_all (\<lambda>l. newline \<notin> set l) ls \<Longrightarrow> i < length ls \<Longrightarrow> c \<le> length (ls ! i) \<Longrightarrow>
   length (split_nl (take (offsetOfLine ls i + c) (join_nl ls))) = Suc i"
proof (induction ls arbitrary: i)
  case Nil
  then show ?case by simp
next
  case (Cons l ls)
  from Cons.prems have nl: "newline \<notin> set l" by simp
  show ?case
  proof (cases i)
    case 0
    with Cons.prems have c: "c \<le> length l" by simp
    have "take c (join_nl (l # ls)) = take c l"
      using c by (cases ls) simp_all
    moreover have "newline \<notin> set (take c l)" using nl by (auto dest: in_set_takeD)
    ultimately show ?thesis using 0 by (simp add: split_nl_line)
  next
    case (Suc j)
    with Cons.prems have j: "j < length ls" "c \<le> length (ls ! j)" by simp_all
    then have ne: "ls \<noteq> []" by auto
    have "take (offsetOfLine (l # ls) i + c) (join_nl (l # ls)) =
            l @ newline # take (offsetOfLine ls j + c) (join_nl ls)"
      using Suc ne by (simp add: join_nl_Cons)
    moreover have "length (split_nl (take (offsetOfLine ls j + c) (join_nl ls))) = Suc j"
      using Cons.IH [OF _ j] Cons.prems(1) by simp
    ultimately show ?thesis using Suc nl by (simp add: split_nl_line_append)
  qed
qed

lemma lineNumberAt_position:
  "wf_lines ls \<Longrightarrow> i < length ls \<Longrightarrow> c \<le> length (ls ! i) \<Longrightarrow>
   lineNumberAt (join_nl ls) (int (offsetOfLine ls i + c)) = int i"
proof -
  assume w: "wf_lines ls" and i: "i < length ls" and c: "c \<le> length (ls ! i)"
  have "nat (int (offsetOfLine ls i + c)) = offsetOfLine ls i + c" by (rule nat_int)
  moreover have "length (split_nl (take (offsetOfLine ls i + c) (join_nl ls))) = Suc i"
    using split_nl_take_position [of ls i c] w i c by (simp add: wf_lines_def)
  ultimately show ?thesis
    unfolding lineNumberAt_def substring0_def by simp
qed

lemma position_le_length:
  "ls \<noteq> [] \<Longrightarrow> i < length ls \<Longrightarrow> c \<le> length (ls ! i) \<Longrightarrow>
   offsetOfLine ls i + c \<le> length (join_nl ls)"
proof -
  assume ne: "ls \<noteq> []" and i: "i < length ls" and c: "c \<le> length (ls ! i)"
  have "offsetOfLine ls (Suc i) \<le> offsetOfLine ls (length ls)"
    using i by (intro offsetOfLine_mono) simp
  then show ?thesis
    using length_join_nl [OF ne] offsetOfLine_Suc [OF i] c by simp
qed

section \<open>Array operations at indices in range\<close>

lemma rel_index_nonneg: "0 \<le> i \<Longrightarrow> rel_index (int n) i = int (min (nat i) n)"
  by (simp add: rel_index_def)

lemma js_splice_nonneg:
  assumes "0 \<le> i" "0 \<le> d"
  shows "js_splice xs i d items =
     (take (nat d) (drop (nat i) xs), take (nat i) xs @ items @ drop (nat i + nat d) xs)"
proof -
  let ?n = "length xs"
  let ?s = "min (nat i) ?n"
  have d: "max d 0 = d" using assms by simp
  have 1: "nat (min d (int ?n - int ?s)) = min (nat d) (?n - nat i)"
    using assms by (simp add: min_def) linarith
  have 2: "take (min (nat d) (?n - nat i)) (drop ?s xs) = take (nat d) (drop (nat i) xs)"
    by (cases "nat i \<le> ?n") (simp_all add: min_def)
  have 3: "nat (int ?s + min d (int ?n - int ?s)) = ?s + min (nat d) (?n - nat i)"
    using assms by (simp add: min_def) linarith
  have 4: "drop (?s + min (nat d) (?n - nat i)) xs = drop (nat i + nat d) xs"
    by (cases "nat i \<le> ?n"; cases "nat d \<le> ?n - nat i") (simp_all add: min_def)
  have 5: "take ?s xs = take (nat i) xs" by (simp add: min_def)
  show ?thesis
    unfolding js_splice_def Let_def rel_index_nonneg [OF assms(1)] d
    by (simp only: 1 2 3 4 5 nat_int)
qed

lemma js_slice_nonneg:
  assumes "0 \<le> i" "0 \<le> j"
  shows "js_slice xs i j = take (nat j - nat i) (drop (nat i) xs)"
proof -
  let ?n = "length xs"
  have 1: "nat (int (min (nat j) ?n) - int (min (nat i) ?n)) = min (nat j) ?n - min (nat i) ?n"
    by linarith
  have "take (min (nat j) ?n - min (nat i) ?n) (drop (min (nat i) ?n) xs)
          = take (nat j - nat i) (drop (nat i) xs)"
    by (cases "nat i \<le> ?n"; cases "nat j \<le> ?n") (simp_all add: min_def)
  then show ?thesis
    unfolding js_slice_def Let_def rel_index_nonneg [OF assms(1)] rel_index_nonneg [OF assms(2)]
    by (simp only: 1 nat_int)
qed


lemma js_splice_insert:
  assumes "p = int (length A)"
  shows "js_splice (A @ C) p 0 B = ([], A @ B @ C)"
proof -
  have "0 \<le> p" "nat p = length A" using assms by simp_all
  then show ?thesis by (simp add: js_splice_nonneg)
qed

lemma js_splice_remove:
  assumes "p = int (length A)" "d = int (length B)"
  shows "js_splice (A @ B @ C) p d [] = (B, A @ C)"
proof -
  have "0 \<le> p" "nat p = length A" "0 \<le> d" "nat d = length B" using assms by simp_all
  then show ?thesis by (simp add: js_splice_nonneg)
qed

lemma js_slice_middle:
  assumes "p = int (length A)" "q = int (length A + length B)"
  shows "js_slice (A @ B @ C) p q = B"
proof -
  have "0 \<le> p" "nat p = length A" "0 \<le> q" "nat q = length A + length B"
    using assms by simp_all
  then show ?thesis by (simp add: js_slice_nonneg)
qed

text \<open>The four branches of the transposition, one at a time.\<close>

lemma transposeLines_copy_single:
  "transposeLines ls a a direction True =
     snd (js_splice ls (if direction = Up then a else a + 1) 0 [ls ! nat a])"
  by (simp add: transposeLines_def)

lemma transposeLines_copy_multi:
  "a \<noteq> b \<Longrightarrow> transposeLines ls a b direction True =
     snd (js_splice ls (if direction = Up then a else b + 1) 0 (js_slice ls a (b + 1)))"
  by (simp add: transposeLines_def)

lemma transposeLines_move_single:
  "transposeLines ls a a direction False =
     ls[nat a := ls ! nat (if direction = Up then a - 1 else a + 1),
        nat (if direction = Up then a - 1 else a + 1) := ls ! nat a]"
  by (simp add: transposeLines_def Let_def)

lemma transposeLines_move_multi:
  "a \<noteq> b \<Longrightarrow> transposeLines ls a b direction False =
     snd (js_splice (snd (js_splice ls a (b - a + 1) []))
            (if direction = Up then a - 1
             else b + 1 - int (length (fst (js_splice ls a (b - a + 1) []))) + 1)
            0 (fst (js_splice ls a (b - a + 1) [])))"
  by (simp add: transposeLines_def case_prod_unfold Let_def)

lemma transposeLines_copy:
  assumes "B \<noteq> []" and a: "a = int (length A)" and b: "b = int (length A + length B) - 1"
  shows "transposeLines (A @ B @ C) a b direction True = A @ B @ B @ C"
proof (cases "length B = 1")
  case True
  then obtain x where B: "B = [x]" by (cases B) auto
  have ba: "b = a" using a b B by simp
  have n: "nat a = length A" using a by simp
  have a1: "a + 1 = int (length (A @ B))" using a B by simp
  have "js_splice (A @ B @ C) (if direction = Up then a else a + 1) 0 [(A @ B @ C) ! nat a]
          = ([], A @ B @ B @ C)"
  proof (cases direction)
    case Up
    then show ?thesis using js_splice_insert [OF a, of "B @ C" B] by (simp add: n B)
  next
    case Down
    then show ?thesis using js_splice_insert [OF a1, of C B] by (simp add: n B)
  qed
  then show ?thesis unfolding ba transposeLines_copy_single by simp
next
  case False
  with assms have ne: "a \<noteq> b" by (cases B) auto
  have b1: "b + 1 = int (length A + length B)" using b by simp
  have b1': "b + 1 = int (length (A @ B))" using b by simp
  have sl: "js_slice (A @ B @ C) a (b + 1) = B"
    by (rule js_slice_middle [OF a b1])
  have "js_splice (A @ B @ C) (if direction = Up then a else b + 1) 0 B = ([], A @ B @ B @ C)"
  proof (cases direction)
    case Up
    then show ?thesis using js_splice_insert [OF a, of "B @ C" B] by simp
  next
    case Down
    then show ?thesis using js_splice_insert [OF b1', of C B] by simp
  qed
  then show ?thesis unfolding transposeLines_copy_multi [OF ne] sl by simp
qed

lemma transposeLines_move_up:
  assumes "B \<noteq> []" and a: "a = int (length A) + 1" and b: "b = int (length A + length B)"
  shows "transposeLines (A @ [x] @ B @ C) a b Up False = A @ B @ [x] @ C"
proof (cases "length B = 1")
  case True
  then obtain y where B: "B = [y]" by (cases B) auto
  have ba: "b = a" using a b B by simp
  have n: "nat a = Suc (length A)" "nat (a - 1) = length A"
    using a by simp_all
  show ?thesis unfolding ba transposeLines_move_single
    by (simp add: n B nth_append list_update_append)
next
  case False
  with assms have ne: "a \<noteq> b" by (cases B) auto
  have p: "a = int (length (A @ [x]))" using a by simp
  have d: "b - a + 1 = int (length B)" using a b by simp
  have q: "a - 1 = int (length A)" using a by simp
  have s1: "js_splice (A @ [x] @ B @ C) a (b - a + 1) [] = (B, A @ [x] @ C)"
    using js_splice_remove [OF p d, of C] by simp
  have s2: "js_splice (A @ [x] @ C) (a - 1) 0 B = ([], A @ B @ [x] @ C)"
    by (rule js_splice_insert [OF q])
  show ?thesis unfolding transposeLines_move_multi [OF ne] s1
    by (simp only: refl if_True fst_conv snd_conv s2)
qed

lemma transposeLines_move_down:
  assumes "B \<noteq> []" and a: "a = int (length A)" and b: "b = int (length A + length B) - 1"
  shows "transposeLines (A @ B @ [x] @ C) a b Down False = A @ [x] @ B @ C"
proof (cases "length B = 1")
  case True
  then obtain y where B: "B = [y]" by (cases B) auto
  have ba: "b = a" using a b B by simp
  have n: "nat a = length A" "nat (a + 1) = Suc (length A)"
    using a by simp_all
  show ?thesis unfolding ba transposeLines_move_single
    by (simp add: n B nth_append list_update_append)
next
  case False
  with assms have ne: "a \<noteq> b" by (cases B) auto
  have d: "b - a + 1 = int (length B)" using a b assms(1) by (simp add: Suc_leI)
  have s1: "js_splice (A @ B @ [x] @ C) a (b - a + 1) [] = (B, A @ [x] @ C)"
    by (rule js_splice_remove [OF a d])
  have p: "b + 1 - int (length B) + 1 = int (length (A @ [x]))" using a b by simp
  have s2: "js_splice (A @ [x] @ C) (b + 1 - int (length B) + 1) 0 B = ([], A @ [x] @ B @ C)"
    using js_splice_insert [OF p, of C B] by simp
  show ?thesis unfolding transposeLines_move_multi [OF ne] s1
    by (simp only: Direction.distinct if_False fst_conv snd_conv s2)
qed

section \<open>Cutting an array of lines\<close>

lemma lines_decomp:
  assumes "a \<le> b" "b < length ls"
  obtains A B C where "ls = A @ B @ C" "length A = a" "length B = Suc (b - a)"
proof -
  define A where "A = take a ls"
  define B where "B = take (Suc (b - a)) (drop a ls)"
  define C where "C = drop (Suc b) ls"
  have lA: "length A = a" using assms by (simp add: A_def)
  have lB: "length B = Suc (b - a)" using assms by (simp add: B_def)
  have "drop a ls = B @ drop (Suc (b - a)) (drop a ls)"
    unfolding B_def by (rule append_take_drop_id [symmetric])
  moreover have "drop (Suc (b - a)) (drop a ls) = C" using assms by (simp add: C_def)
  ultimately have "ls = A @ B @ C" by (metis A_def append_take_drop_id)
  then show ?thesis using lA lB by (rule that)
qed

lemma hd_last_nth:
  assumes "B \<noteq> []"
  shows "(A @ B @ C) ! length A = hd B" "(A @ B @ C) ! (length A + length B - 1) = last B"
proof -
  show "(A @ B @ C) ! length A = hd B" using assms by (simp add: nth_append hd_conv_nth)
  have "length A + length B - 1 = length A + (length B - 1)" using assms by (cases B) auto
  then show "(A @ B @ C) ! (length A + length B - 1) = last B"
    using assms by (simp add: nth_append last_conv_nth)
qed

section \<open>Selections given by line and column\<close>

text \<open>
  A selection with \<open>0 \<le> s \<le> e \<le> length v\<close> cuts the lines into the lines before the
  selection, the selected lines and the lines after it; \<open>s\<close> is a column of the first
  selected line, \<open>e\<close> a column of the last one.
\<close>

lemma selection_decomp:
  assumes "0 \<le> s" "s \<le> e" "e \<le> int (length v)"
  obtains A B C c1 c2 where
    "split_nl v = A @ B @ C" "B \<noteq> []"
    "lineNumberAt v s = int (length A)"
    "lineNumberAt v e = int (length A + length B) - 1"
    "s = int (offsetOfLine (split_nl v) (length A) + c1)" "c1 \<le> length (hd B)"
    "e = int (offsetOfLine (split_nl v) (length A + length B - 1) + c2)" "c2 \<le> length (last B)"
    "length B = 1 \<longrightarrow> c1 \<le> c2"
proof -
  let ?ls = "split_nl v"
  have ns: "nat s \<le> length v" and ne: "nat e \<le> length v" using assms by simp_all
  have s: "int (nat s) = s" and e: "int (nat e) = e" using assms by simp_all
  from locate_offset [OF ns] obtain a c1 where
    a: "lineNumberAt v s = int a" "a < length ?ls"
       "nat s = offsetOfLine ?ls a + c1" "c1 \<le> length (?ls ! a)" unfolding s by blast
  from locate_offset [OF ne] obtain b c2 where
    b: "lineNumberAt v e = int b" "b < length ?ls"
       "nat e = offsetOfLine ?ls b + c2" "c2 \<le> length (?ls ! b)" unfolding e by blast
  have ab: "a \<le> b"
    using lineNumberAt_mono [OF assms(2), of v] a(1) b(1) by simp
  from lines_decomp [OF ab b(2)] obtain A B C where
    d: "?ls = A @ B @ C" "length A = a" "length B = Suc (b - a)" by blast
  have 2: "B \<noteq> []" using d(3) by auto
  have lb: "length A + length B - 1 = b" using ab d(2,3) by simp
  have hd: "?ls ! a = hd B"
    using hd_last_nth(1) [OF 2, of A C] unfolding d(1) d(2) .
  have last: "?ls ! b = last B"
    using hd_last_nth(2) [OF 2, of A C] unfolding lb d(1) .
  have 3: "lineNumberAt v s = int (length A)" using a(1) by (simp add: d(2))
  have 4: "lineNumberAt v e = int (length A + length B) - 1"
    using b(1) ab by (simp add: d(2,3))
  have 5: "s = int (offsetOfLine ?ls (length A) + c1)" using a(3) s by (simp add: d(2))
  have 6: "e = int (offsetOfLine ?ls (length A + length B - 1) + c2)"
    using b(3) e unfolding lb by simp
  have 7: "c1 \<le> length (hd B)" "c2 \<le> length (last B)"
    using a(4) b(4) by (simp_all add: hd last)
  have 8: "length B = 1 \<longrightarrow> c1 \<le> c2"
  proof
    assume "length B = 1"
    then have "a = b" using d(3) ab by simp
    then show "c1 \<le> c2" using a(3) b(3) assms(2) by simp
  qed
  from d(1) 2 3 4 5 7(1) 6 7(2) 8 show ?thesis by (rule that)
qed

text \<open>The operation on a selection given by line and column.\<close>

lemma moveSelectedLine_at:
  assumes "wf_lines ls" "a < length ls" "b < length ls"
    "c1 \<le> length (ls ! a)" "c2 \<le> length (ls ! b)"
  shows "moveSelectedLine (join_nl ls) (int (offsetOfLine ls a + c1))
           (int (offsetOfLine ls b + c2)) direction shouldCopy =
     (if \<not> shouldCopy \<and> ((direction = Up \<and> a = 0) \<or>
                            (direction = Down \<and> int b = int (length ls) - 1))
      then None
      else Some \<lparr> newValue = join_nl (transposeLines ls (int a) (int b) direction shouldCopy),
                  selection = remapSelection
                    (transposeLines ls (int a) (int b) direction shouldCopy)
                    (int a) (int b) (a \<noteq> b) (int c1) (int c2) direction shouldCopy \<rparr>)"
proof -
  have 1: "split_nl (join_nl ls) = ls" by (rule split_join_wf [OF assms(1)])
  have 2: "lineNumberAt (join_nl ls) (int (offsetOfLine ls a + c1)) = int a"
    by (rule lineNumberAt_position [OF assms(1,2,4)])
  have 3: "lineNumberAt (join_nl ls) (int (offsetOfLine ls b + c2)) = int b"
    by (rule lineNumberAt_position [OF assms(1,3,5)])
  have 4: "int (offsetOfLine ls a + c1) - lineOffsets ls ! nat (int a) = int c1"
    using lineOffsets_nth [OF assms(2)] by simp
  have 5: "int (offsetOfLine ls b + c2) - lineOffsets ls ! nat (int b) = int c2"
    using lineOffsets_nth [OF assms(3)] by simp
  show ?thesis
    unfolding moveSelectedLine_def Let_def 1 2 3 4 5 by simp
qed

lemma remapSelection_eval:
  assumes "newStartLine a direction shouldCopy = int p"
    "newEndLine b direction shouldCopy = int q" "p < length new" "q < length new"
  shows "remapSelection new a b multi so eo direction shouldCopy =
    Some (min (int (offsetOfLine new p) + so)
              (int (offsetOfLine new p) + int (length (new ! p))),
          min (if multi then int (offsetOfLine new q) + eo else int (offsetOfLine new p) + so)
              (int (offsetOfLine new q) + int (length (new ! q))))"
  using assms unfolding remapSelection_def Let_def
  by (simp add: js_at_def lineOffsets_nth)

section \<open>The operation on a block of lines\<close>

lemma remapSelection_fit:
  assumes "newStartLine a direction shouldCopy = int p"
    "newEndLine b direction shouldCopy = int q" "p < length new" "q < length new"
    "c1 \<le> length (new ! p)" "c2 \<le> length (new ! q)" "\<not> multi \<longrightarrow> p = q"
  shows "remapSelection new a b multi (int c1) (int c2) direction shouldCopy =
    Some (int (offsetOfLine new p + c1),
          if multi then int (offsetOfLine new q + c2) else int (offsetOfLine new p + c1))"
  unfolding remapSelection_eval [OF assms(1-4)] using assms(5-7) by auto

lemma moveSelectedLine_fit:
  assumes wf: "wf_lines ls" and a: "a < length ls" and b: "b < length ls"
    and c1: "c1 \<le> length (ls ! a)" and c2: "c2 \<le> length (ls ! b)"
    and nb: "shouldCopy \<or> \<not> (direction = Up \<and> a = 0 \<or> direction = Down \<and> Suc b = length ls)"
    and new: "transposeLines ls (int a) (int b) direction shouldCopy = new"
    and p: "newStartLine (int a) direction shouldCopy = int p"
    and q: "newEndLine (int b) direction shouldCopy = int q"
    and pq: "p < length new" "q < length new" "new ! p = ls ! a" "new ! q = ls ! b"
      "a = b \<longrightarrow> p = q"
  shows "moveSelectedLine (join_nl ls) (int (offsetOfLine ls a + c1))
           (int (offsetOfLine ls b + c2)) direction shouldCopy =
         Some \<lparr> newValue = join_nl new,
                 selection = Some (int (offsetOfLine new p + c1),
                   if a \<noteq> b then int (offsetOfLine new q + c2)
                   else int (offsetOfLine new p + c1)) \<rparr>"
proof -
  have nb': "\<not> (\<not> shouldCopy \<and> ((direction = Up \<and> a = 0) \<or>
                            (direction = Down \<and> int b = int (length ls) - 1)))"
    using nb by auto
  have r: "remapSelection new (int a) (int b) (a \<noteq> b) (int c1) (int c2) direction shouldCopy =
    Some (int (offsetOfLine new p + c1),
          if a \<noteq> b then int (offsetOfLine new q + c2) else int (offsetOfLine new p + c1))"
    using c1 c2 pq by (intro remapSelection_fit [OF p q]) simp_all
  show ?thesis
    unfolding moveSelectedLine_at [OF wf a b c1 c2] new r using nb' by simp
qed

lemma newLine_simps:
  "newStartLine a Up True = a" "newStartLine a Down True = a + 1"
  "newStartLine a Up False = a - 1" "newStartLine a Down False = a + 1"
  "newEndLine b Up True = b" "newEndLine b Down True = b + 1"
  "newEndLine b Up False = b - 1" "newEndLine b Down False = b + 1"
  by (simp_all add: newStartLine_def newEndLine_def)

text \<open>A move upwards of the block \<open>B\<close> over the line \<open>x\<close>.\<close>

lemma move_up_at:
  assumes wf: "wf_lines (A @ [x] @ B @ C)" and B: "B \<noteq> []"
    and c1: "c1 \<le> length (hd B)" and c2: "c2 \<le> length (last B)"
  shows "moveSelectedLine (join_nl (A @ [x] @ B @ C))
           (int (offsetOfLine (A @ [x] @ B @ C) (Suc (length A)) + c1))
           (int (offsetOfLine (A @ [x] @ B @ C) (length A + length B) + c2)) Up False =
         Some \<lparr> newValue = join_nl (A @ B @ [x] @ C),
                 selection = Some (int (offsetOfLine (A @ B @ [x] @ C) (length A) + c1),
                   if length B \<noteq> 1
                   then int (offsetOfLine (A @ B @ [x] @ C) (length A + length B - 1) + c2)
                   else int (offsetOfLine (A @ B @ [x] @ C) (length A) + c1)) \<rparr>"
proof -
  let ?ls = "A @ [x] @ B @ C" and ?new = "A @ B @ [x] @ C"
  let ?a = "Suc (length A)" and ?b = "length A + length B"
  let ?p = "length A" and ?q = "length A + length B - 1"
  have lB: "0 < length B" using B by simp
  have a: "?a < length ?ls" and b: "?b < length ?ls" using lB by simp_all
  have na: "?ls ! ?a = hd B" using hd_last_nth(1) [OF B, of "A @ [x]" C] by simp
  have nb: "?ls ! ?b = last B" using hd_last_nth(2) [OF B, of "A @ [x]" C] by simp
  have np: "?new ! ?p = hd B" and nq: "?new ! ?q = last B"
    using hd_last_nth [OF B, of A "[x] @ C"] by simp_all
  have new: "transposeLines ?ls (int ?a) (int ?b) Up False = ?new"
    by (rule transposeLines_move_up [OF B]) simp_all
  have p: "newStartLine (int ?a) Up False = int ?p" by (simp add: newLine_simps)
  have q: "newEndLine (int ?b) Up False = int ?q" unfolding newLine_simps using lB by linarith
  have ab: "(?a \<noteq> ?b) = (length B \<noteq> 1)" by auto
  have "moveSelectedLine (join_nl ?ls) (int (offsetOfLine ?ls ?a + c1))
           (int (offsetOfLine ?ls ?b + c2)) Up False =
         Some \<lparr> newValue = join_nl ?new,
                 selection = Some (int (offsetOfLine ?new ?p + c1),
                   if ?a \<noteq> ?b then int (offsetOfLine ?new ?q + c2)
                   else int (offsetOfLine ?new ?p + c1)) \<rparr>"
  proof (rule moveSelectedLine_fit [OF wf a b _ _ _ new p q])
    show "c1 \<le> length (?ls ! ?a)" using c1 na by simp
    show "c2 \<le> length (?ls ! ?b)" using c2 nb by simp
    show "False \<or> \<not> (Up = Up \<and> ?a = 0 \<or> Up = Down \<and> Suc ?b = length ?ls)" by simp
    show "?p < length ?new" using lB by simp
    show "?q < length ?new" using lB by simp
    show "?new ! ?p = ?ls ! ?a" using np na by simp
    show "?new ! ?q = ?ls ! ?b" using nq nb by simp
    show "?a = ?b \<longrightarrow> ?p = ?q" by auto
  qed
  then show ?thesis unfolding ab .
qed

text \<open>A move downwards of the block \<open>B\<close> over the line \<open>x\<close>.\<close>

lemma move_down_at:
  assumes wf: "wf_lines (A @ B @ [x] @ C)" and B: "B \<noteq> []"
    and c1: "c1 \<le> length (hd B)" and c2: "c2 \<le> length (last B)"
  shows "moveSelectedLine (join_nl (A @ B @ [x] @ C))
           (int (offsetOfLine (A @ B @ [x] @ C) (length A) + c1))
           (int (offsetOfLine (A @ B @ [x] @ C) (length A + length B - 1) + c2)) Down False =
         Some \<lparr> newValue = join_nl (A @ [x] @ B @ C),
                 selection = Some (int (offsetOfLine (A @ [x] @ B @ C) (Suc (length A)) + c1),
                   if length B \<noteq> 1
                   then int (offsetOfLine (A @ [x] @ B @ C) (length A + length B) + c2)
                   else int (offsetOfLine (A @ [x] @ B @ C) (Suc (length A)) + c1)) \<rparr>"
proof -
  let ?ls = "A @ B @ [x] @ C" and ?new = "A @ [x] @ B @ C"
  let ?p = "Suc (length A)" and ?q = "length A + length B"
  let ?a = "length A" and ?b = "length A + length B - 1"
  have lB: "0 < length B" using B by simp
  have a: "?a < length ?ls" and b: "?b < length ?ls" using lB by simp_all
  have np: "?new ! ?p = hd B" using hd_last_nth(1) [OF B, of "A @ [x]" C] by simp
  have nq: "?new ! ?q = last B" using hd_last_nth(2) [OF B, of "A @ [x]" C] by simp
  have na: "?ls ! ?a = hd B" and nb: "?ls ! ?b = last B"
    using hd_last_nth [OF B, of A "[x] @ C"] by simp_all
  have ib: "int ?b = int (length A + length B) - 1" using lB by linarith
  have new: "transposeLines ?ls (int ?a) (int ?b) Down False = ?new"
    by (rule transposeLines_move_down [OF B refl ib])
  have p: "newStartLine (int ?a) Down False = int ?p" by (simp add: newLine_simps)
  have q: "newEndLine (int ?b) Down False = int ?q" unfolding ib by (simp add: newLine_simps)
  have ab: "(?a \<noteq> ?b) = (length B \<noteq> 1)" using lB by linarith
  have "moveSelectedLine (join_nl ?ls) (int (offsetOfLine ?ls ?a + c1))
           (int (offsetOfLine ?ls ?b + c2)) Down False =
         Some \<lparr> newValue = join_nl ?new,
                 selection = Some (int (offsetOfLine ?new ?p + c1),
                   if ?a \<noteq> ?b then int (offsetOfLine ?new ?q + c2)
                   else int (offsetOfLine ?new ?p + c1)) \<rparr>"
  proof (rule moveSelectedLine_fit [OF wf a b _ _ _ new p q])
    show "c1 \<le> length (?ls ! ?a)" using c1 na by simp
    show "c2 \<le> length (?ls ! ?b)" using c2 nb by simp
    have "Suc ?b \<noteq> length ?ls" using lB by simp
    then show "False \<or> \<not> (Down = Up \<and> ?a = 0 \<or> Down = Down \<and> Suc ?b = length ?ls)"
      by simp
    show "?p < length ?new" using lB by simp
    show "?q < length ?new" using lB by simp
    show "?new ! ?p = ?ls ! ?a" using np na by simp
    show "?new ! ?q = ?ls ! ?b" using nq nb by simp
    show "?a = ?b \<longrightarrow> ?p = ?q" using lB by linarith
  qed
  then show ?thesis unfolding ab .
qed

subsection \<open>Moving there and back\<close>

lemma move_up_then_down:
  assumes wf: "wf_lines (A @ [x] @ B @ C)" and B: "B \<noteq> []"
    and c1: "c1 \<le> length (hd B)" and c2: "c2 \<le> length (last B)"
  shows "\<exists>nv fs fe.
           moveSelectedLine (join_nl (A @ [x] @ B @ C))
             (int (offsetOfLine (A @ [x] @ B @ C) (Suc (length A)) + c1))
             (int (offsetOfLine (A @ [x] @ B @ C) (length A + length B) + c2)) Up False =
             Some \<lparr> newValue = nv, selection = Some (fs, fe) \<rparr> \<and>
           (\<exists>r. moveSelectedLine nv fs fe Down False = Some r \<and>
                newValue r = join_nl (A @ [x] @ B @ C))"
proof -
  let ?ls = "A @ [x] @ B @ C" and ?new = "A @ B @ [x] @ C"
  define c2' where "c2' = (if length B \<noteq> 1 then c2 else c1)"
  have wf': "wf_lines ?new" by (rule wf_lines_perm [OF wf]) simp
  have hl: "length B = 1 \<Longrightarrow> last B = hd B" by (cases B) auto
  have c2': "c2' \<le> length (last B)" using c1 c2 hl by (auto simp: c2'_def)
  have fe: "(if length B \<noteq> 1 then int (offsetOfLine ?new (length A + length B - 1) + c2)
             else int (offsetOfLine ?new (length A) + c1)) =
            int (offsetOfLine ?new (length A + length B - 1) + c2')"
    by (auto simp: c2'_def)
  have up: "moveSelectedLine (join_nl ?ls) (int (offsetOfLine ?ls (Suc (length A)) + c1))
              (int (offsetOfLine ?ls (length A + length B) + c2)) Up False =
            Some \<lparr> newValue = join_nl ?new,
                    selection = Some (int (offsetOfLine ?new (length A) + c1),
                      int (offsetOfLine ?new (length A + length B - 1) + c2')) \<rparr>"
    unfolding move_up_at [OF wf B c1 c2] fe ..
  have down: "\<exists>r. moveSelectedLine (join_nl ?new) (int (offsetOfLine ?new (length A) + c1))
              (int (offsetOfLine ?new (length A + length B - 1) + c2')) Down False = Some r \<and>
              newValue r = join_nl ?ls"
    unfolding move_down_at [OF wf' B c1 c2'] by simp
  from up down show ?thesis by blast
qed

lemma move_down_then_up:
  assumes wf: "wf_lines (A @ B @ [x] @ C)" and B: "B \<noteq> []"
    and c1: "c1 \<le> length (hd B)" and c2: "c2 \<le> length (last B)"
  shows "\<exists>nv fs fe.
           moveSelectedLine (join_nl (A @ B @ [x] @ C))
             (int (offsetOfLine (A @ B @ [x] @ C) (length A) + c1))
             (int (offsetOfLine (A @ B @ [x] @ C) (length A + length B - 1) + c2)) Down False =
             Some \<lparr> newValue = nv, selection = Some (fs, fe) \<rparr> \<and>
           (\<exists>r. moveSelectedLine nv fs fe Up False = Some r \<and>
                newValue r = join_nl (A @ B @ [x] @ C))"
proof -
  let ?ls = "A @ B @ [x] @ C" and ?new = "A @ [x] @ B @ C"
  define c2' where "c2' = (if length B \<noteq> 1 then c2 else c1)"
  have wf': "wf_lines ?new" by (rule wf_lines_perm [OF wf]) simp
  have hl: "length B = 1 \<Longrightarrow> last B = hd B" by (cases B) auto
  have c2': "c2' \<le> length (last B)" using c1 c2 hl by (auto simp: c2'_def)
  have fe: "(if length B \<noteq> 1 then int (offsetOfLine ?new (length A + length B) + c2)
             else int (offsetOfLine ?new (Suc (length A)) + c1)) =
            int (offsetOfLine ?new (length A + length B) + c2')"
    by (auto simp: c2'_def)
  have down: "moveSelectedLine (join_nl ?ls) (int (offsetOfLine ?ls (length A) + c1))
              (int (offsetOfLine ?ls (length A + length B - 1) + c2)) Down False =
            Some \<lparr> newValue = join_nl ?new,
                    selection = Some (int (offsetOfLine ?new (Suc (length A)) + c1),
                      int (offsetOfLine ?new (length A + length B) + c2')) \<rparr>"
    unfolding move_down_at [OF wf B c1 c2] fe ..
  have up: "\<exists>r. moveSelectedLine (join_nl ?new) (int (offsetOfLine ?new (Suc (length A)) + c1))
              (int (offsetOfLine ?new (length A + length B) + c2')) Up False = Some r \<and>
              newValue r = join_nl ?ls"
    unfolding move_up_at [OF wf' B c1 c2'] by simp
  from down up show ?thesis by blast
qed

text \<open>
  C1, the round trip of a move. For a selection \<open>0 \<le> s \<le> e \<le> length v\<close>: when its
  first line is not line 0, moving it up succeeds with a new text and a new selection,
  and moving that selection down in the new text gives the original text back; when its
  last line is not the last line of the text, moving it down and then up does the same.
\<close>

theorem move_round_trip:
  assumes "0 \<le> s" "s \<le> e" "e \<le> int (length v)"
  shows "(lineNumberAt v s \<noteq> 0 \<longrightarrow>
            (\<exists>nv fs fe. moveSelectedLine v s e Up False =
                           Some \<lparr> newValue = nv, selection = Some (fs, fe) \<rparr> \<and>
               (\<exists>r. moveSelectedLine nv fs fe Down False = Some r \<and> newValue r = v))) \<and>
         (lineNumberAt v e \<noteq> int (length (split_nl v)) - 1 \<longrightarrow>
            (\<exists>nv fs fe. moveSelectedLine v s e Down False =
                           Some \<lparr> newValue = nv, selection = Some (fs, fe) \<rparr> \<and>
               (\<exists>r. moveSelectedLine nv fs fe Up False = Some r \<and> newValue r = v)))"
proof -
  obtain A B C c1 c2 where
    d: "split_nl v = A @ B @ C" "B \<noteq> []"
       "lineNumberAt v s = int (length A)"
       "lineNumberAt v e = int (length A + length B) - 1"
       "s = int (offsetOfLine (split_nl v) (length A) + c1)" "c1 \<le> length (hd B)"
       "e = int (offsetOfLine (split_nl v) (length A + length B - 1) + c2)"
       "c2 \<le> length (last B)" "length B = 1 \<longrightarrow> c1 \<le> c2"
    by (rule selection_decomp [OF assms])
  have v: "v = join_nl (A @ B @ C)" using join_split [of v] d(1) by simp
  have wf: "wf_lines (A @ B @ C)" using wf_lines_split [of v] d(1) by simp
  have lB: "0 < length B" using d(2) by simp
  show ?thesis
  proof (intro conjI impI)
    assume "lineNumberAt v s \<noteq> 0"
    then have "A \<noteq> []" using d(3) by auto
    then obtain A' x where A: "A = A' @ [x]" by (metis rev_exhaust)
    have ls: "A @ B @ C = A' @ [x] @ B @ C" by (simp add: A)
    have s': "s = int (offsetOfLine (A' @ [x] @ B @ C) (Suc (length A')) + c1)"
      using d(5) by (simp add: d(1) A)
    have e': "e = int (offsetOfLine (A' @ [x] @ B @ C) (length A' + length B) + c2)"
      using d(7) by (simp add: d(1) A)
    have v': "v = join_nl (A' @ [x] @ B @ C)" using v by (simp add: A)
    show "\<exists>nv fs fe. moveSelectedLine v s e Up False =
                           Some \<lparr> newValue = nv, selection = Some (fs, fe) \<rparr> \<and>
               (\<exists>r. moveSelectedLine nv fs fe Down False = Some r \<and> newValue r = v)"
      unfolding s' e' v' by (rule move_up_then_down [OF wf [unfolded ls] d(2,6,8)])
  next
    assume "lineNumberAt v e \<noteq> int (length (split_nl v)) - 1"
    then have "C \<noteq> []" using d(4) by (auto simp: d(1))
    then obtain x C' where C: "C = x # C'" by (cases C) auto
    have ls: "A @ B @ C = A @ B @ [x] @ C'" by (simp add: C)
    have s': "s = int (offsetOfLine (A @ B @ [x] @ C') (length A) + c1)"
      using d(5) by (simp add: d(1) C)
    have e': "e = int (offsetOfLine (A @ B @ [x] @ C') (length A + length B - 1) + c2)"
      using d(7) by (simp add: d(1) C)
    have v': "v = join_nl (A @ B @ [x] @ C')" using v by (simp add: C)
    show "\<exists>nv fs fe. moveSelectedLine v s e Down False =
                           Some \<lparr> newValue = nv, selection = Some (fs, fe) \<rparr> \<and>
               (\<exists>r. moveSelectedLine nv fs fe Up False = Some r \<and> newValue r = v)"
      unfolding s' e' v' by (rule move_down_then_up [OF wf [unfolded ls] d(2,6,8)])
  qed
qed

theorem move_round_trip_witness:
  "lineNumberAt ''a\<newline>bb\<newline>ccc\<newline>d'' 2 \<noteq> 0 \<and>
   lineNumberAt ''a\<newline>bb\<newline>ccc\<newline>d'' 6 \<noteq> int (length (split_nl ''a\<newline>bb\<newline>ccc\<newline>d'')) - 1 \<and>
   (\<exists>nv fs fe. moveSelectedLine ''a\<newline>bb\<newline>ccc\<newline>d'' 2 6 Up False =
                           Some \<lparr> newValue = nv, selection = Some (fs, fe) \<rparr> \<and>
               (\<exists>r. moveSelectedLine nv fs fe Down False = Some r \<and> newValue r = ''a\<newline>bb\<newline>ccc\<newline>d'')) \<and>
   (\<exists>nv fs fe. moveSelectedLine ''a\<newline>bb\<newline>ccc\<newline>d'' 2 6 Down False =
                           Some \<lparr> newValue = nv, selection = Some (fs, fe) \<rparr> \<and>
               (\<exists>r. moveSelectedLine nv fs fe Up False = Some r \<and> newValue r = ''a\<newline>bb\<newline>ccc\<newline>d''))"
proof -
  have 1: "lineNumberAt ''a\<newline>bb\<newline>ccc\<newline>d'' 2 \<noteq> 0" by code_simp
  have 2: "lineNumberAt ''a\<newline>bb\<newline>ccc\<newline>d'' 6 \<noteq> int (length (split_nl ''a\<newline>bb\<newline>ccc\<newline>d'')) - 1"
    by code_simp
  have h: "(0::int) \<le> 2" "(2::int) \<le> 6" "(6::int) \<le> int (length ''a\<newline>bb\<newline>ccc\<newline>d'')" by simp_all
  from move_round_trip [OF h] 1 2 show ?thesis by blast
qed

section \<open>Line counts and line contents\<close>

lemma js_splice_nothing:
  assumes "d \<le> 0"
  shows "js_splice xs p d [] = ([], xs)"
proof -
  have 1: "rel_index (int (length xs)) p \<le> int (length xs)" by (simp add: rel_index_def)
  have "min (max d 0) (int (length xs) - rel_index (int (length xs)) p) = 0"
    using assms 1 by simp
  then show ?thesis unfolding js_splice_def Let_def by simp
qed

text \<open>A move only rearranges the lines, whatever the two line numbers in range are.\<close>

lemma transposeLines_move_mset:
  assumes a: "0 \<le> a" "a < int (length ls)" and b: "0 \<le> b" "b < int (length ls)"
    and nb: "\<not> (direction = Up \<and> a = 0 \<or> direction = Down \<and> b = int (length ls) - 1)"
  shows "mset (transposeLines ls a b direction False) = mset ls"
proof -
  consider "a = b" | "a < b" | "b < a" by linarith
  then show ?thesis
  proof cases
    case 1
    let ?sw = "if direction = Up then a - 1 else a + 1"
    have i: "nat a < length ls" using a by simp
    have j: "nat ?sw < length ls" using a b nb 1 by (cases direction) auto
    show ?thesis unfolding 1 [symmetric] transposeLines_move_single
      by (rule mset_swap [OF j i])
  next
    case 2
    then have ne: "a \<noteq> b" by simp
    have ab: "nat a \<le> nat b" "nat b < length ls" using 2 a b by simp_all
    from lines_decomp [OF ab] obtain A B C where
      d: "ls = A @ B @ C" "length A = nat a" "length B = Suc (nat b - nat a)" by blast
    have B: "B \<noteq> []" using d(3) by auto
    have ia: "a = int (length A)" using d(2) a by simp
    have ib: "b = int (length A + length B) - 1" using d(2,3) a b 2 by simp
    show ?thesis
    proof (cases direction)
      case Up
      with nb ia have "A \<noteq> []" by auto
      then obtain A' x where A: "A = A' @ [x]" by (metis rev_exhaust)
      have ls: "ls = A' @ [x] @ B @ C" by (simp add: d(1) A)
      have "transposeLines (A' @ [x] @ B @ C) a b Up False = A' @ B @ [x] @ C"
        by (rule transposeLines_move_up [OF B]) (simp_all add: ia ib A)
      then show ?thesis unfolding Up ls by simp
    next
      case Down
      with nb ib have "C \<noteq> []" by (auto simp: d(1))
      then obtain x C' where C: "C = x # C'" by (cases C) auto
      have ls: "ls = A @ B @ [x] @ C'" by (simp add: d(1) C)
      have "transposeLines (A @ B @ [x] @ C') a b Down False = A @ [x] @ B @ C'"
        by (rule transposeLines_move_down [OF B ia ib])
      then show ?thesis unfolding Down ls by simp
    qed
  next
    case 3
    then have ne: "a \<noteq> b" by simp
    have "b - a + 1 \<le> 0" using 3 by simp
    then have 1: "js_splice ls a (b - a + 1) [] = ([], ls)" by (rule js_splice_nothing)
    have 2: "js_splice ls p 0 [] = ([], ls)" for p by (rule js_splice_nothing) simp
    show ?thesis unfolding transposeLines_move_multi [OF ne] 1 by (simp add: 2)
  qed
qed

text \<open>
  C9, a move keeps the lines. Whatever the selection offsets are, when a move is not
  the boundary no-op, the new text has as many lines as the old one, and its lines are
  a rearrangement of the old lines (the same multiset).
\<close>

theorem move_preserves_lines:
  assumes "moveSelectedLine v s e direction False = Some r"
  shows "length (split_nl (newValue r)) = length (split_nl v) \<and>
         mset (split_nl (newValue r)) = mset (split_nl v)"
proof -
  let ?ls = "split_nl v" and ?a = "lineNumberAt v s" and ?b = "lineNumberAt v e"
  let ?new = "transposeLines ?ls ?a ?b direction False"
  from assms have nb: "\<not> (direction = Up \<and> ?a = 0 \<or>
                           direction = Down \<and> ?b = int (length ?ls) - 1)"
    unfolding moveSelectedLine_def Let_def by (auto split: if_splits)
  from assms have r: "newValue r = join_nl ?new"
    unfolding moveSelectedLine_def Let_def by (auto split: if_splits)
  have m: "mset ?new = mset ?ls"
    using lineNumberAt_range [of v s] lineNumberAt_range [of v e] nb
    by (intro transposeLines_move_mset) simp_all
  have "wf_lines ?new" by (rule wf_lines_perm [OF wf_lines_split m])
  then have "split_nl (newValue r) = ?new" unfolding r by (rule split_join_wf)
  then show ?thesis using m mset_eq_length [OF m] by simp
qed

theorem move_preserves_lines_witness:
  "moveSelectedLine ''a\<newline>bb\<newline>ccc'' 0 3 Down False =
     Some \<lparr> newValue = ''ccc\<newline>a\<newline>bb'', selection = Some (4, 7) \<rparr> \<and>
   length (split_nl ''ccc\<newline>a\<newline>bb'') = length (split_nl ''a\<newline>bb\<newline>ccc'') \<and>
   mset (split_nl ''ccc\<newline>a\<newline>bb'') = mset (split_nl ''a\<newline>bb\<newline>ccc'')"
proof -
  have 1: "moveSelectedLine ''a\<newline>bb\<newline>ccc'' 0 3 Down False =
     Some \<lparr> newValue = ''ccc\<newline>a\<newline>bb'', selection = Some (4, 7) \<rparr>"
    by code_simp
  from move_preserves_lines [OF 1] 1 show ?thesis by simp
qed

section \<open>Copies\<close>

lemma line_range_decomp:
  assumes "s \<le> e"
  obtains A B C where "split_nl v = A @ B @ C" "B \<noteq> []"
    "lineNumberAt v s = int (length A)" "lineNumberAt v e = int (length A + length B) - 1"
proof -
  let ?a = "nat (lineNumberAt v s)" and ?b = "nat (lineNumberAt v e)"
  have ra: "0 \<le> lineNumberAt v s" and rb: "0 \<le> lineNumberAt v e"
    "lineNumberAt v e < int (length (split_nl v))"
    using lineNumberAt_range [of v s] lineNumberAt_range [of v e] by simp_all
  have ab: "?a \<le> ?b" "?b < length (split_nl v)"
    using lineNumberAt_mono [OF assms, of v] ra rb by simp_all
  from lines_decomp [OF ab] obtain A B C where
    d: "split_nl v = A @ B @ C" "length A = ?a" "length B = Suc (?b - ?a)" by blast
  have 1: "B \<noteq> []" using d(3) by auto
  have 2: "lineNumberAt v s = int (length A)" using d(2) ra by simp
  have 3: "lineNumberAt v e = int (length A + length B) - 1"
    using d(2,3) ab(1) rb(1) by simp
  from d(1) 1 2 3 show ?thesis by (rule that)
qed

lemma moveSelectedLine_copy:
  "\<exists>sel. moveSelectedLine v s e direction True =
     Some \<lparr> newValue = join_nl (transposeLines (split_nl v) (lineNumberAt v s)
                                   (lineNumberAt v e) direction True),
             selection = sel \<rparr>"
  unfolding moveSelectedLine_def Let_def by simp

lemma wf_lines_copy: "wf_lines (A @ B @ C) \<Longrightarrow> wf_lines (A @ B @ B @ C)"
  by (auto simp: wf_lines_def)

lemma copy_inserts_block:
  assumes "s \<le> e"
  obtains A B C r where "split_nl v = A @ B @ C" "B \<noteq> []"
    "lineNumberAt v s = int (length A)" "lineNumberAt v e = int (length A + length B) - 1"
    "moveSelectedLine v s e direction True = Some r"
    "split_nl (newValue r) = A @ B @ B @ C"
proof -
  from line_range_decomp [OF assms] obtain A B C where
    d: "split_nl v = A @ B @ C" "B \<noteq> []"
    "lineNumberAt v s = int (length A)" "lineNumberAt v e = int (length A + length B) - 1"
    by blast
  from moveSelectedLine_copy [of v s e direction] obtain r where
    r: "moveSelectedLine v s e direction True = Some r"
       "newValue r = join_nl (transposeLines (split_nl v) (lineNumberAt v s)
                                   (lineNumberAt v e) direction True)"
    by auto
  have "transposeLines (A @ B @ C) (int (length A)) (int (length A + length B) - 1)
          direction True = A @ B @ B @ C"
    by (rule transposeLines_copy [OF d(2) refl refl])
  then have n: "newValue r = join_nl (A @ B @ B @ C)" unfolding r(2) d by simp
  have "wf_lines (A @ B @ C)" using wf_lines_split [of v] unfolding d(1) .
  then have "wf_lines (A @ B @ B @ C)" by (rule wf_lines_copy)
  then have "split_nl (newValue r) = A @ B @ B @ C" unfolding n by (rule split_join_wf)
  with d r(1) show ?thesis by (rule that)
qed

text \<open>
  C3, the growth of a copy. For a selection with \<open>s \<le> e\<close> that touches the \<open>k\<close> lines
  \<open>a\<close> to \<open>b\<close>, a copy in either direction succeeds; the new text has \<open>k\<close> more lines
  than the old one; the \<open>k\<close> lines at the insert position (\<open>a\<close> for Up, \<open>b + 1\<close> for
  Down) are the selected lines; and the new lines without these \<open>k\<close> lines are the old
  lines, which join to the old text.
\<close>

theorem copy_growth:
  assumes "s \<le> e"
  shows "\<exists>r. moveSelectedLine v s e direction True = Some r \<and>
    (let ls = split_nl v; new = split_nl (newValue r);
         a = nat (lineNumberAt v s); b = nat (lineNumberAt v e);
         k = b - a + 1; p = (if direction = Up then a else b + 1)
     in a \<le> b \<and> length new = length ls + k \<and>
        take k (drop p new) = take k (drop a ls) \<and>
        take p new @ drop (p + k) new = ls \<and>
        join_nl (take p new @ drop (p + k) new) = v)"
proof -
  from copy_inserts_block [OF assms, of v direction] obtain A B C r where
    d: "split_nl v = A @ B @ C" "B \<noteq> []"
    "lineNumberAt v s = int (length A)" "lineNumberAt v e = int (length A + length B) - 1"
    "moveSelectedLine v s e direction True = Some r"
    "split_nl (newValue r) = A @ B @ B @ C"
    by blast
  have lB: "0 < length B" using d(2) by simp
  have a: "nat (lineNumberAt v s) = length A" unfolding d(3) by simp
  have b: "nat (lineNumberAt v e) = length A + length B - 1" unfolding d(4) using lB by linarith
  have k: "length A + length B - 1 - length A + 1 = length B" using lB by linarith
  have b1: "length A + length B - 1 + 1 = length A + length B" using lB by linarith
  have ab: "length A \<le> length A + length B - 1" using lB by linarith
  have v: "join_nl (A @ B @ C) = v" using join_split [of v] unfolding d(1) .
  define p where "p = (if direction = Up then length A else length A + length B)"
  have P: "(if direction = Up then nat (lineNumberAt v s) else nat (lineNumberAt v e) + 1) = p"
    unfolding a b b1 p_def ..
  have K: "nat (lineNumberAt v e) - nat (lineNumberAt v s) + 1 = length B"
    unfolding a b k ..
  have 1: "length (A @ B @ B @ C) = length (A @ B @ C) + length B" by simp
  have 2: "take (length B) (drop p (A @ B @ B @ C)) =
           take (length B) (drop (length A) (A @ B @ C))"
    by (simp add: p_def)
  have 3: "take p (A @ B @ B @ C) @ drop (p + length B) (A @ B @ B @ C) = A @ B @ C"
    by (simp add: p_def)
  have 4: "join_nl (take p (A @ B @ B @ C) @ drop (p + length B) (A @ B @ B @ C)) = v"
    unfolding 3 by (rule v)
  have "nat (lineNumberAt v s) \<le> nat (lineNumberAt v e) \<and>
        length (split_nl (newValue r)) = length (split_nl v) + length B \<and>
        take (length B) (drop p (split_nl (newValue r))) =
          take (length B) (drop (nat (lineNumberAt v s)) (split_nl v)) \<and>
        take p (split_nl (newValue r)) @ drop (p + length B) (split_nl (newValue r)) =
          split_nl v \<and>
        join_nl (take p (split_nl (newValue r)) @
                 drop (p + length B) (split_nl (newValue r))) = v"
    unfolding d(1) d(6) a b using ab 1 2 3 4 by (intro conjI)
  with d(5) show ?thesis unfolding Let_def P K by blast
qed

theorem copy_growth_witness:
  "\<exists>r. moveSelectedLine ''a\<newline>bb\<newline>ccc'' 2 7 Down True = Some r \<and>
        length (split_nl (newValue r)) = 5 \<and>
        take 2 (drop 3 (split_nl (newValue r))) = [''bb'', ''ccc''] \<and>
        take 3 (split_nl (newValue r)) @ drop 5 (split_nl (newValue r)) = [''a'', ''bb'', ''ccc''] \<and>
        join_nl (take 3 (split_nl (newValue r)) @ drop 5 (split_nl (newValue r))) =
          ''a\<newline>bb\<newline>ccc''"
proof -
  have h: "(2::int) \<le> 7" by simp
  have a: "nat (lineNumberAt ''a\<newline>bb\<newline>ccc'' 2) = 1" by code_simp
  have b: "nat (lineNumberAt ''a\<newline>bb\<newline>ccc'' 7) = 2" by code_simp
  have l: "split_nl ''a\<newline>bb\<newline>ccc'' = [''a'', ''bb'', ''ccc'']" by code_simp
  from copy_growth [OF h, of "''a\<newline>bb\<newline>ccc''" Down] show ?thesis
    unfolding Let_def a b l by (simp add: numeral_eq_Suc)
qed

text \<open>
  C2, the boundary. A move upwards whose start line is line 0, and a move downwards
  whose end line is the last line, return early: \<open>onChange\<close> and \<open>setSelectionRange\<close>
  are not called, so the text and the selection of the host stay as they are, and
  nothing is thrown. A copy has no such test: for \<open>s \<le> e\<close>, a copy upwards from line 0
  puts the duplicate of the selected lines in front of all lines (index 0), and a copy
  downwards from the last line puts it behind all lines.
\<close>

theorem boundary_policy:
  "(lineNumberAt v s = 0 \<longrightarrow> moveSelectedLine v s e Up False = None) \<and>
   (lineNumberAt v e = int (length (split_nl v)) - 1 \<longrightarrow>
      moveSelectedLine v s e Down False = None) \<and>
   (s \<le> e \<and> lineNumberAt v s = 0 \<longrightarrow>
      (\<exists>r. moveSelectedLine v s e Up True = Some r \<and>
           split_nl (newValue r) =
             take (nat (lineNumberAt v e) + 1) (split_nl v) @ split_nl v)) \<and>
   (s \<le> e \<and> lineNumberAt v e = int (length (split_nl v)) - 1 \<longrightarrow>
      (\<exists>r. moveSelectedLine v s e Down True = Some r \<and>
           split_nl (newValue r) =
             split_nl v @ drop (nat (lineNumberAt v s)) (split_nl v)))"
proof (intro conjI impI)
  assume "lineNumberAt v s = 0"
  then show "moveSelectedLine v s e Up False = None"
    by (simp add: moveSelectedLine_def)
next
  assume "lineNumberAt v e = int (length (split_nl v)) - 1"
  then show "moveSelectedLine v s e Down False = None"
    by (simp add: moveSelectedLine_def)
next
  assume h: "s \<le> e \<and> lineNumberAt v s = 0"
  then have se: "s \<le> e" ..
  from copy_inserts_block [OF se, of v Up] obtain A B C r where
    d: "split_nl v = A @ B @ C" "B \<noteq> []"
    "lineNumberAt v s = int (length A)" "lineNumberAt v e = int (length A + length B) - 1"
    "moveSelectedLine v s e Up True = Some r"
    "split_nl (newValue r) = A @ B @ B @ C"
    by blast
  have A: "A = []" using h d(3) by simp
  have "nat (int (length A + length B) - 1) + 1 = length B"
    using d(2) by (cases B) (simp_all add: A)
  then have "nat (lineNumberAt v e) + 1 = length B" unfolding d(4) .
  then have "take (nat (lineNumberAt v e) + 1) (split_nl v) @ split_nl v = A @ B @ B @ C"
    unfolding d(1) A by simp
  with d(5,6) show "\<exists>r. moveSelectedLine v s e Up True = Some r \<and>
           split_nl (newValue r) =
             take (nat (lineNumberAt v e) + 1) (split_nl v) @ split_nl v"
    by simp
next
  assume h: "s \<le> e \<and> lineNumberAt v e = int (length (split_nl v)) - 1"
  then have se: "s \<le> e" ..
  from copy_inserts_block [OF se, of v Down] obtain A B C r where
    d: "split_nl v = A @ B @ C" "B \<noteq> []"
    "lineNumberAt v s = int (length A)" "lineNumberAt v e = int (length A + length B) - 1"
    "moveSelectedLine v s e Down True = Some r"
    "split_nl (newValue r) = A @ B @ B @ C"
    by blast
  have C: "C = []" using h d(4) unfolding d(1) by simp
  have "split_nl v @ drop (nat (lineNumberAt v s)) (split_nl v) = A @ B @ B @ C"
    unfolding d(1) d(3) C by simp
  with d(5,6) show "\<exists>r. moveSelectedLine v s e Down True = Some r \<and>
           split_nl (newValue r) =
             split_nl v @ drop (nat (lineNumberAt v s)) (split_nl v)"
    by simp
qed

theorem boundary_policy_witness:
  "lineNumberAt ''ab\<newline>cd'' 1 = 0 \<and> moveSelectedLine ''ab\<newline>cd'' 1 1 Up False = None \<and>
   lineNumberAt ''ab\<newline>cd'' 4 = int (length (split_nl ''ab\<newline>cd'')) - 1 \<and>
   moveSelectedLine ''ab\<newline>cd'' 4 4 Down False = None \<and>
   (\<exists>r. moveSelectedLine ''ab\<newline>cd'' 1 1 Up True = Some r \<and>
        split_nl (newValue r) = [''ab'', ''ab'', ''cd'']) \<and>
   (\<exists>r. moveSelectedLine ''ab\<newline>cd'' 4 4 Down True = Some r \<and>
        split_nl (newValue r) = [''ab'', ''cd'', ''cd''])"
proof -
  have 1: "lineNumberAt ''ab\<newline>cd'' 1 = 0" by code_simp
  have 2: "lineNumberAt ''ab\<newline>cd'' 4 = int (length (split_nl ''ab\<newline>cd'')) - 1" by code_simp
  have 3: "nat (lineNumberAt ''ab\<newline>cd'' 4) = 1" by code_simp
  have l: "split_nl ''ab\<newline>cd'' = [''ab'', ''cd'']" by code_simp
  have h: "(1::int) \<le> 1" "(4::int) \<le> 4" by simp_all
  from boundary_policy [of "''ab\<newline>cd''" 1 1] 1 h(1)
  have a: "moveSelectedLine ''ab\<newline>cd'' 1 1 Up False = None"
    "\<exists>r. moveSelectedLine ''ab\<newline>cd'' 1 1 Up True = Some r \<and>
        split_nl (newValue r) = [''ab'', ''ab'', ''cd'']"
    unfolding l by simp_all
  from boundary_policy [of "''ab\<newline>cd''" 4 4] 2 h(2)
  have b: "moveSelectedLine ''ab\<newline>cd'' 4 4 Down False = None"
    "\<exists>r. moveSelectedLine ''ab\<newline>cd'' 4 4 Down True = Some r \<and>
        split_nl (newValue r) = [''ab'', ''cd'', ''cd'']"
    unfolding l 3 by simp_all
  from 1 2 a b show ?thesis by blast
qed

section \<open>The new selection of a well-formed selection\<close>

lemma transpose_frame:
  assumes B: "B \<noteq> []" and wf: "wf_lines (A @ B @ C)"
    and nb: "shouldCopy \<or> \<not> (direction = Up \<and> A = [] \<or> direction = Down \<and> C = [])"
  obtains new p where
    "transposeLines (A @ B @ C) (int (length A)) (int (length A + length B) - 1)
       direction shouldCopy = new"
    "wf_lines new"
    "newStartLine (int (length A)) direction shouldCopy = int p"
    "newEndLine (int (length A + length B) - 1) direction shouldCopy = int (p + length B - 1)"
    "p + length B - 1 < length new"
    "length B = 1 \<longrightarrow> new ! p = hd B"
proof -
  have lB: "0 < length B" using B by simp
  have hdB: "length B = 1 \<Longrightarrow> B = [hd B]" by (cases B) auto
  show ?thesis
  proof (cases shouldCopy)
    case True
    then have sc: "shouldCopy = True" by simp
    have t: "transposeLines (A @ B @ C) (int (length A)) (int (length A + length B) - 1)
               direction shouldCopy = A @ B @ B @ C"
      unfolding sc by (rule transposeLines_copy [OF B refl refl])
    have w: "wf_lines (A @ B @ B @ C)" by (rule wf_lines_copy [OF wf])
    show ?thesis
    proof (cases direction)
      case Up
      have 1: "newStartLine (int (length A)) direction shouldCopy = int (length A)"
        unfolding Up sc newLine_simps ..
      have 2: "newEndLine (int (length A + length B) - 1) direction shouldCopy =
                 int (length A + length B - 1)"
        unfolding Up sc newLine_simps using lB by linarith
      have 3: "length A + length B - 1 < length (A @ B @ B @ C)"
        unfolding length_append list.size using lB by linarith
      have 4: "length B = 1 \<longrightarrow> (A @ B @ B @ C) ! length A = hd B"
        using hd_last_nth(1) [OF B, of A "B @ C"] by simp
      from t w 1 2 3 4 show ?thesis by (rule that)
    next
      case Down
      have 1: "newStartLine (int (length A)) direction shouldCopy = int (Suc (length A))"
        unfolding Down sc newLine_simps by simp
      have 2: "newEndLine (int (length A + length B) - 1) direction shouldCopy =
                 int (Suc (length A) + length B - 1)"
        unfolding Down sc newLine_simps by simp
      have 3: "Suc (length A) + length B - 1 < length (A @ B @ B @ C)"
        unfolding length_append list.size using lB by linarith
      have 4: "length B = 1 \<longrightarrow> (A @ B @ B @ C) ! Suc (length A) = hd B"
      proof
        assume "length B = 1"
        then obtain y where y: "B = [y]" by (cases B) auto
        show "(A @ B @ B @ C) ! Suc (length A) = hd B" unfolding y by (simp add: nth_append)
      qed
      from t w 1 2 3 4 show ?thesis by (rule that)
    qed
  next
    case False
    then have sc: "shouldCopy = False" by simp
    show ?thesis
    proof (cases direction)
      case Up
      with nb False have "A \<noteq> []" by simp
      then obtain A' x where A: "A = A' @ [x]" by (metis rev_exhaust)
      have ia: "int (length A) = int (length A') + 1" by (simp add: A)
      have ib: "int (length A + length B) - 1 = int (length A' + length B)" by (simp add: A)
      have ls: "A @ B @ C = A' @ [x] @ B @ C" by (simp add: A)
      have t: "transposeLines (A @ B @ C) (int (length A)) (int (length A + length B) - 1)
               direction shouldCopy = A' @ B @ [x] @ C"
        unfolding sc Up ls by (rule transposeLines_move_up [OF B ia ib])
      have w: "wf_lines (A' @ B @ [x] @ C)" by (rule wf_lines_perm [OF wf]) (simp add: A)
      have 1: "newStartLine (int (length A)) direction shouldCopy = int (length A')"
        unfolding Up sc newLine_simps A by simp
      have 2: "newEndLine (int (length A + length B) - 1) direction shouldCopy =
                 int (length A' + length B - 1)"
        unfolding Up sc newLine_simps ib using lB by linarith
      have 3: "length A' + length B - 1 < length (A' @ B @ [x] @ C)"
        unfolding length_append list.size using lB by linarith
      have 4: "length B = 1 \<longrightarrow> (A' @ B @ [x] @ C) ! length A' = hd B"
        using hd_last_nth(1) [OF B, of A' "[x] @ C"] by simp
      from t w 1 2 3 4 show ?thesis by (rule that)
    next
      case Down
      with nb False have "C \<noteq> []" by simp
      then obtain x C' where C: "C = x # C'" by (cases C) auto
      have ls: "A @ B @ C = A @ B @ [x] @ C'" by (simp add: C)
      have t: "transposeLines (A @ B @ C) (int (length A)) (int (length A + length B) - 1)
               direction shouldCopy = A @ [x] @ B @ C'"
        unfolding sc Down ls by (rule transposeLines_move_down [OF B refl refl])
      have w: "wf_lines (A @ [x] @ B @ C')" by (rule wf_lines_perm [OF wf]) (simp add: C)
      have 1: "newStartLine (int (length A)) direction shouldCopy = int (Suc (length A))"
        unfolding Down sc newLine_simps by simp
      have 2: "newEndLine (int (length A + length B) - 1) direction shouldCopy =
                 int (Suc (length A) + length B - 1)"
        unfolding Down sc newLine_simps by simp
      have 3: "Suc (length A) + length B - 1 < length (A @ [x] @ B @ C')"
        unfolding length_append list.size using lB by linarith
      have 4: "length B = 1 \<longrightarrow> (A @ [x] @ B @ C') ! Suc (length A) = hd B"
        using hd_last_nth(1) [OF B, of "A @ [x]" C'] by simp
      from t w 1 2 3 4 show ?thesis by (rule that)
    qed
  qed
qed

text \<open>
  What an operation that does not return early does with a selection
  \<open>0 \<le> s \<le> e \<le> length v\<close>: the new lines \<open>new\<close>, the new start line \<open>p\<close> and end line
  \<open>q\<close>, both in range, the start column \<open>c1\<close> and the end column \<open>c2\<close> of the old
  selection, and the two clamped offsets.
\<close>

lemma valid_operation:
  assumes "0 \<le> s" "s \<le> e" "e \<le> int (length v)"
    and r: "moveSelectedLine v s e direction shouldCopy = Some r"
  obtains new p q c1 c2 where
    "newValue r = join_nl new" "wf_lines new"
    "newStartLine (lineNumberAt v s) direction shouldCopy = int p"
    "newEndLine (lineNumberAt v e) direction shouldCopy = int q"
    "p \<le> q" "q < length new"
    "(p = q) = (lineNumberAt v s = lineNumberAt v e)"
    "s - lineOffsets (split_nl v) ! nat (lineNumberAt v s) = int c1"
    "c1 \<le> length (split_nl v ! nat (lineNumberAt v s))"
    "lineNumberAt v s = lineNumberAt v e \<longrightarrow> new ! p = split_nl v ! nat (lineNumberAt v s)"
    "selection r =
       Some (min (int (offsetOfLine new p) + int c1)
                 (int (offsetOfLine new p) + int (length (new ! p))),
             min (if lineNumberAt v s \<noteq> lineNumberAt v e
                  then int (offsetOfLine new q) + int c2
                  else int (offsetOfLine new p) + int c1)
                 (int (offsetOfLine new q) + int (length (new ! q))))"
proof -
  obtain A B C c1 c2 where
    d: "split_nl v = A @ B @ C" "B \<noteq> []"
       "lineNumberAt v s = int (length A)"
       "lineNumberAt v e = int (length A + length B) - 1"
       "s = int (offsetOfLine (split_nl v) (length A) + c1)" "c1 \<le> length (hd B)"
       "e = int (offsetOfLine (split_nl v) (length A + length B - 1) + c2)"
       "c2 \<le> length (last B)" "length B = 1 \<longrightarrow> c1 \<le> c2"
    by (rule selection_decomp [OF assms(1-3)])
  let ?ls = "A @ B @ C"
  let ?a = "length A" and ?b = "length A + length B - 1"
  have lB: "0 < length B" using d(2) by simp
  have v: "v = join_nl ?ls" using join_split [of v] unfolding d(1) by simp
  have wf: "wf_lines ?ls" using wf_lines_split [of v] unfolding d(1) .
  have a: "?a < length ?ls" and b: "?b < length ?ls"
    unfolding length_append using lB by linarith+
  have na: "?ls ! ?a = hd B" and nb: "?ls ! ?b = last B"
    using hd_last_nth [OF d(2), of A C] by simp_all
  have c1: "c1 \<le> length (?ls ! ?a)" and c2: "c2 \<le> length (?ls ! ?b)"
    unfolding na nb by (rule d(6), rule d(8))
  have ib: "int ?b = int (length A + length B) - 1" using lB by linarith
  have ab: "(?a \<noteq> ?b) = (length B \<noteq> 1)" using lB by linarith
  have ab': "(lineNumberAt v s \<noteq> lineNumberAt v e) = (length B \<noteq> 1)"
    unfolding d(3,4) using lB by linarith
  have s: "s = int (offsetOfLine ?ls ?a + c1)" using d(5) unfolding d(1) .
  have e: "e = int (offsetOfLine ?ls ?b + c2)" using d(7) unfolding d(1) .
  let ?T = "transposeLines ?ls (int ?a) (int ?b) direction shouldCopy"
  have at: "moveSelectedLine v s e direction shouldCopy =
     (if \<not> shouldCopy \<and> ((direction = Up \<and> ?a = 0) \<or>
                            (direction = Down \<and> int ?b = int (length ?ls) - 1))
      then None
      else Some \<lparr> newValue = join_nl ?T,
                  selection = remapSelection ?T (int ?a) (int ?b) (?a \<noteq> ?b)
                                (int c1) (int c2) direction shouldCopy \<rparr>)"
    using moveSelectedLine_at [OF wf a b c1 c2, of direction shouldCopy]
    unfolding s e v .
  have C0: "(int ?b = int (length ?ls) - 1) = (C = [])"
    unfolding ib by simp
  from r at have nbd: "shouldCopy \<or> \<not> (direction = Up \<and> A = [] \<or> direction = Down \<and> C = [])"
    unfolding C0 by (auto split: if_splits)
  from r at have r': "r = \<lparr> newValue = join_nl ?T,
                  selection = remapSelection ?T (int ?a) (int ?b) (?a \<noteq> ?b)
                                (int c1) (int c2) direction shouldCopy \<rparr>"
    by (auto split: if_splits)
  obtain new p where
    f: "transposeLines ?ls (int ?a) (int (length A + length B) - 1)
          direction shouldCopy = new"
       "wf_lines new"
       "newStartLine (int ?a) direction shouldCopy = int p"
       "newEndLine (int (length A + length B) - 1) direction shouldCopy
          = int (p + length B - 1)"
       "p + length B - 1 < length new"
       "length B = 1 \<longrightarrow> new ! p = hd B"
    by (rule transpose_frame [OF d(2) wf nbd])
  have T: "?T = new" unfolding ib by (rule f(1))
  let ?q = "p + length B - 1"
  have pq: "p \<le> ?q" using lB by linarith
  have plt: "p < length new" using f(5) pq by linarith
  have peq: "(p = ?q) = (lineNumberAt v s = lineNumberAt v e)"
    unfolding d(3,4) using lB by linarith
  have 1: "newValue r = join_nl new" unfolding r' T by (simp only: outcome.select_convs)
  have 3: "newStartLine (lineNumberAt v s) direction shouldCopy = int p"
    unfolding d(3) by (rule f(3))
  have 4: "newEndLine (lineNumberAt v e) direction shouldCopy = int ?q"
    unfolding d(4) by (rule f(4))
  have 8: "s - lineOffsets (split_nl v) ! nat (lineNumberAt v s) = int c1"
    unfolding d(3) d(1) using lineOffsets_nth [OF a] s by simp
  have 9: "c1 \<le> length (split_nl v ! nat (lineNumberAt v s))"
    unfolding d(3) d(1) using c1 by simp
  have 10: "lineNumberAt v s = lineNumberAt v e \<longrightarrow>
              new ! p = split_nl v ! nat (lineNumberAt v s)"
    using f(6) ab' unfolding d(1) d(3) nat_int na by blast
  have "selection r = remapSelection ?T (int ?a) (int ?b) (?a \<noteq> ?b)
                                (int c1) (int c2) direction shouldCopy"
    unfolding r' by (simp only: outcome.select_convs)
  then have "selection r = remapSelection new (int ?a) (int ?b)
          (lineNumberAt v s \<noteq> lineNumberAt v e) (int c1) (int c2) direction shouldCopy"
    unfolding T ab ab' [symmetric] .
  then have "selection r = remapSelection new (int ?a) (int (length A + length B) - 1)
          (lineNumberAt v s \<noteq> lineNumberAt v e) (int c1) (int c2) direction shouldCopy"
    unfolding ib .
  then have 11: "selection r =
       Some (min (int (offsetOfLine new p) + int c1)
                 (int (offsetOfLine new p) + int (length (new ! p))),
             min (if lineNumberAt v s \<noteq> lineNumberAt v e
                  then int (offsetOfLine new ?q) + int c2
                  else int (offsetOfLine new p) + int c1)
                 (int (offsetOfLine new ?q) + int (length (new ! ?q))))"
    unfolding remapSelection_eval [OF f(3,4) plt f(5)] .
  from 1 f(2) 3 4 pq f(5) peq 8 9 10 11 show ?thesis by (rule that)
qed

section \<open>The new selection: clamp, order, single lines\<close>

lemma min_offset: "min (int o1 + int c) (int o1 + int l) = int (o1 + min c l)"
  by simp

text \<open>
  C7, the clamp. For a selection \<open>0 \<le> s \<le> e \<le> length v\<close> and an operation that does not
  return early, \<open>setSelectionRange\<close> is called, the new start line and the new end line
  are lines of the new text, the two new offsets lie on these lines, and their columns
  are at most the lengths of these lines.
\<close>

theorem clamp_safety:
  assumes "0 \<le> s" "s \<le> e" "e \<le> int (length v)"
    and "moveSelectedLine v s e direction shouldCopy = Some r"
  shows "\<exists>fs fe. selection r = Some (fs, fe) \<and>
    (let new = split_nl (newValue r); offs = lineOffsets new;
         nsl = newStartLine (lineNumberAt v s) direction shouldCopy;
         nel = newEndLine (lineNumberAt v e) direction shouldCopy
     in 0 \<le> nsl \<and> nsl < int (length new) \<and> 0 \<le> nel \<and> nel < int (length new) \<and>
        lineNumberAt (newValue r) fs = nsl \<and> lineNumberAt (newValue r) fe = nel \<and>
        0 \<le> fs - offs ! nat nsl \<and> fs - offs ! nat nsl \<le> int (length (new ! nat nsl)) \<and>
        0 \<le> fe - offs ! nat nel \<and> fe - offs ! nat nel \<le> int (length (new ! nat nel)))"
proof -
  obtain new p q c1 c2 where
    f: "newValue r = join_nl new" "wf_lines new"
    "newStartLine (lineNumberAt v s) direction shouldCopy = int p"
    "newEndLine (lineNumberAt v e) direction shouldCopy = int q"
    "p \<le> q" "q < length new"
    "(p = q) = (lineNumberAt v s = lineNumberAt v e)"
    "s - lineOffsets (split_nl v) ! nat (lineNumberAt v s) = int c1"
    "c1 \<le> length (split_nl v ! nat (lineNumberAt v s))"
    "lineNumberAt v s = lineNumberAt v e \<longrightarrow> new ! p = split_nl v ! nat (lineNumberAt v s)"
    "selection r =
       Some (min (int (offsetOfLine new p) + int c1)
                 (int (offsetOfLine new p) + int (length (new ! p))),
             min (if lineNumberAt v s \<noteq> lineNumberAt v e
                  then int (offsetOfLine new q) + int c2
                  else int (offsetOfLine new p) + int c1)
                 (int (offsetOfLine new q) + int (length (new ! q))))"
    by (rule valid_operation [OF assms])
  have p: "p < length new" using f(5,6) by linarith
  define k1 where "k1 = min c1 (length (new ! p))"
  define k2 where "k2 = (if lineNumberAt v s \<noteq> lineNumberAt v e then min c2 (length (new ! q))
                         else min c1 (length (new ! q)))"
  define fs where "fs = int (offsetOfLine new p + k1)"
  define fe where "fe = int (offsetOfLine new q + k2)"
  have k1: "k1 \<le> length (new ! p)" and k2: "k2 \<le> length (new ! q)"
    by (simp_all add: k1_def k2_def)
  have e2: "min (if lineNumberAt v s \<noteq> lineNumberAt v e
                  then int (offsetOfLine new q) + int c2
                  else int (offsetOfLine new p) + int c1)
                 (int (offsetOfLine new q) + int (length (new ! q))) = fe"
  proof (cases "lineNumberAt v s = lineNumberAt v e")
    case True
    then have "p = q" using f(7) by simp
    then show ?thesis using True unfolding fe_def k2_def by simp
  next
    case False
    then show ?thesis unfolding fe_def k2_def by simp
  qed
  have sel: "selection r = Some (fs, fe)"
    unfolding f(11) e2 min_offset fs_def k1_def ..
  have new: "split_nl (newValue r) = new" unfolding f(1) by (rule split_join_wf [OF f(2)])
  have l1: "lineNumberAt (newValue r) fs = int p"
    unfolding f(1) fs_def by (rule lineNumberAt_position [OF f(2) p k1])
  have l2: "lineNumberAt (newValue r) fe = int q"
    unfolding f(1) fe_def by (rule lineNumberAt_position [OF f(2) f(6) k2])
  have o1: "fs - lineOffsets new ! p = int k1"
    unfolding fs_def lineOffsets_nth [OF p] by simp
  have o2: "fe - lineOffsets new ! q = int k2"
    unfolding fe_def lineOffsets_nth [OF f(6)] by simp
  have "0 \<le> int p \<and> int p < int (length new) \<and> 0 \<le> int q \<and> int q < int (length new) \<and>
        lineNumberAt (newValue r) fs = int p \<and> lineNumberAt (newValue r) fe = int q \<and>
        0 \<le> fs - lineOffsets new ! nat (int p) \<and>
        fs - lineOffsets new ! nat (int p) \<le> int (length (new ! nat (int p))) \<and>
        0 \<le> fe - lineOffsets new ! nat (int q) \<and>
        fe - lineOffsets new ! nat (int q) \<le> int (length (new ! nat (int q)))"
    unfolding nat_int o1 o2 using p f(6) l1 l2 k1 k2 by simp
  then show ?thesis unfolding Let_def new f(3,4) using sel by blast
qed

theorem clamp_safety_witness:
  "\<exists>fs fe. selection \<lparr> newValue = ''a\<newline>bbbb\<newline>a\<newline>bbbb\<newline>cc'', selection = Some (3, 8) \<rparr> = Some (fs, fe) \<and>
     lineNumberAt ''a\<newline>bbbb\<newline>a\<newline>bbbb\<newline>cc'' fs = 1 \<and>
     lineNumberAt ''a\<newline>bbbb\<newline>a\<newline>bbbb\<newline>cc'' fe = 2 \<and>
     fs - lineOffsets [''a'', ''bbbb'', ''a'', ''bbbb'', ''cc''] ! 1 \<le> 4 \<and>
     fe - lineOffsets [''a'', ''bbbb'', ''a'', ''bbbb'', ''cc''] ! 2 \<le> 1"
proof -
  have h: "(0::int) \<le> 1" "(1::int) \<le> 5" "(5::int) \<le> int (length ''a\<newline>bbbb\<newline>cc'')"
    by simp_all
  have m: "moveSelectedLine ''a\<newline>bbbb\<newline>cc'' 1 5 Down True =
     Some \<lparr> newValue = ''a\<newline>bbbb\<newline>a\<newline>bbbb\<newline>cc'', selection = Some (3, 8) \<rparr>"
    by code_simp
  have l: "split_nl ''a\<newline>bbbb\<newline>a\<newline>bbbb\<newline>cc'' = [''a'', ''bbbb'', ''a'', ''bbbb'', ''cc'']"
    by code_simp
  have a: "lineNumberAt ''a\<newline>bbbb\<newline>cc'' 1 = 0" by code_simp
  have b: "lineNumberAt ''a\<newline>bbbb\<newline>cc'' 5 = 1" by code_simp
  from clamp_safety [OF h m] show ?thesis
    unfolding Let_def a b newLine_simps outcome.select_convs l by simp
qed

text \<open>
  C10, the order of the new selection. For a selection \<open>0 \<le> s \<le> e \<le> length v\<close> and an
  operation that does not return early, the pair given to \<open>setSelectionRange\<close> is
  ordered: its start is at most its end.
\<close>

theorem selection_ordered:
  assumes "0 \<le> s" "s \<le> e" "e \<le> int (length v)"
    and "moveSelectedLine v s e direction shouldCopy = Some r"
  shows "\<exists>fs fe. selection r = Some (fs, fe) \<and> fs \<le> fe"
proof -
  obtain new p q c1 c2 where
    f: "newValue r = join_nl new" "wf_lines new"
    "newStartLine (lineNumberAt v s) direction shouldCopy = int p"
    "newEndLine (lineNumberAt v e) direction shouldCopy = int q"
    "p \<le> q" "q < length new"
    "(p = q) = (lineNumberAt v s = lineNumberAt v e)"
    "s - lineOffsets (split_nl v) ! nat (lineNumberAt v s) = int c1"
    "c1 \<le> length (split_nl v ! nat (lineNumberAt v s))"
    "lineNumberAt v s = lineNumberAt v e \<longrightarrow> new ! p = split_nl v ! nat (lineNumberAt v s)"
    "selection r =
       Some (min (int (offsetOfLine new p) + int c1)
                 (int (offsetOfLine new p) + int (length (new ! p))),
             min (if lineNumberAt v s \<noteq> lineNumberAt v e
                  then int (offsetOfLine new q) + int c2
                  else int (offsetOfLine new p) + int c1)
                 (int (offsetOfLine new q) + int (length (new ! q))))"
    by (rule valid_operation [OF assms])
  have p: "p < length new" using f(5,6) by linarith
  have "min (int (offsetOfLine new p) + int c1)
            (int (offsetOfLine new p) + int (length (new ! p)))
        \<le> min (if lineNumberAt v s \<noteq> lineNumberAt v e
                  then int (offsetOfLine new q) + int c2
                  else int (offsetOfLine new p) + int c1)
                 (int (offsetOfLine new q) + int (length (new ! q)))"
  proof (cases "lineNumberAt v s = lineNumberAt v e")
    case True
    then have "p = q" using f(7) by simp
    then show ?thesis using True by simp
  next
    case False
    then have "Suc p \<le> q" using f(5,7) by simp
    then have "offsetOfLine new (Suc p) \<le> offsetOfLine new q" by (rule offsetOfLine_mono)
    then have "offsetOfLine new p + length (new ! p) < offsetOfLine new q"
      unfolding offsetOfLine_Suc [OF p] by simp
    then have "int (offsetOfLine new p) + int (length (new ! p)) < int (offsetOfLine new q)"
      by linarith
    then show ?thesis using False by (simp add: min_le_iff_disj)
  qed
  with f(11) show ?thesis by blast
qed

theorem selection_ordered_witness:
  "\<exists>fs fe. selection \<lparr> newValue = ''a\<newline>bbbb\<newline>a\<newline>bbbb\<newline>cc'', selection = Some (3, 8) \<rparr> = Some (fs, fe) \<and>
     fs \<le> fe"
proof -
  have h: "(0::int) \<le> 1" "(1::int) \<le> 5" "(5::int) \<le> int (length ''a\<newline>bbbb\<newline>cc'')"
    by simp_all
  have m: "moveSelectedLine ''a\<newline>bbbb\<newline>cc'' 1 5 Down True =
     Some \<lparr> newValue = ''a\<newline>bbbb\<newline>a\<newline>bbbb\<newline>cc'', selection = Some (3, 8) \<rparr>"
    by code_simp
  from selection_ordered [OF h m] show ?thesis .
qed

text \<open>
  C5, a selection inside one line. The specification has a range inside one line stay a
  range, both columns clamped on their own. The code gives \<open>newSelectionEnd\<close> the value
  of \<open>newSelectionStart\<close> whenever the selection is not multi-line, so the range "ab" of
  the text "ab\\ncd" (offsets 0 to 2) becomes the caret (3, 3) after a move down, and
  not the range (3, 5) at the same columns of the moved line.
\<close>

theorem single_line_range_counterexample:
  "lineNumberAt ''ab\<newline>cd'' 0 = lineNumberAt ''ab\<newline>cd'' 2 \<and> (0::int) < 2 \<and>
   moveSelectedLine ''ab\<newline>cd'' 0 2 Down False =
     Some \<lparr> newValue = ''cd\<newline>ab'', selection = Some (3, 3) \<rparr> \<and>
   lineOffsets (split_nl ''cd\<newline>ab'') ! 1 + min 2 (int (length (split_nl ''cd\<newline>ab'' ! 1))) = 5"
  by code_simp

text \<open>
  C5 as the code has it. For a selection \<open>0 \<le> s \<le> e \<le> length v\<close> inside one line, caret
  or range, and an operation that does not return early, the new selection is a caret:
  both ends are the offset of the new start line plus the old start column. The new
  start line holds the text of the selected line, so the column is never cut.
\<close>

theorem single_line_caret:
  assumes "0 \<le> s" "s \<le> e" "e \<le> int (length v)"
    and "lineNumberAt v s = lineNumberAt v e"
    and "moveSelectedLine v s e direction shouldCopy = Some r"
  shows "let new = split_nl (newValue r);
             nsl = nat (newStartLine (lineNumberAt v s) direction shouldCopy);
             startColumn = s - lineOffsets (split_nl v) ! nat (lineNumberAt v s);
             caret = lineOffsets new ! nsl + startColumn
         in selection r = Some (caret, caret) \<and>
            nsl < length new \<and>
            new ! nsl = split_nl v ! nat (lineNumberAt v s) \<and>
            0 \<le> startColumn \<and> startColumn \<le> int (length (new ! nsl))"
proof -
  obtain new p q c1 c2 where
    f: "newValue r = join_nl new" "wf_lines new"
    "newStartLine (lineNumberAt v s) direction shouldCopy = int p"
    "newEndLine (lineNumberAt v e) direction shouldCopy = int q"
    "p \<le> q" "q < length new"
    "(p = q) = (lineNumberAt v s = lineNumberAt v e)"
    "s - lineOffsets (split_nl v) ! nat (lineNumberAt v s) = int c1"
    "c1 \<le> length (split_nl v ! nat (lineNumberAt v s))"
    "lineNumberAt v s = lineNumberAt v e \<longrightarrow> new ! p = split_nl v ! nat (lineNumberAt v s)"
    "selection r =
       Some (min (int (offsetOfLine new p) + int c1)
                 (int (offsetOfLine new p) + int (length (new ! p))),
             min (if lineNumberAt v s \<noteq> lineNumberAt v e
                  then int (offsetOfLine new q) + int c2
                  else int (offsetOfLine new p) + int c1)
                 (int (offsetOfLine new q) + int (length (new ! q))))"
    by (rule valid_operation [OF assms(1-3,5)])
  have pq: "q = p" using f(7) assms(4) by simp
  have p: "p < length new" using f(6) pq by simp
  have line: "new ! p = split_nl v ! nat (lineNumberAt v s)" using f(10) assms(4) by simp
  have c1: "c1 \<le> length (new ! p)" unfolding line by (rule f(9))
  have new: "split_nl (newValue r) = new" unfolding f(1) by (rule split_join_wf [OF f(2)])
  have sel: "selection r = Some (lineOffsets new ! p + int c1, lineOffsets new ! p + int c1)"
    unfolding f(11) pq lineOffsets_nth [OF p] using assms(4) c1 by simp
  have "selection r = Some (lineOffsets new ! p + int c1, lineOffsets new ! p + int c1) \<and>
        p < length new \<and> new ! p = split_nl v ! nat (lineNumberAt v s) \<and>
        0 \<le> int c1 \<and> int c1 \<le> int (length (new ! p))"
    using sel p line c1 by simp
  then show ?thesis unfolding Let_def new f(3) f(8) nat_int .
qed

theorem single_line_caret_witness:
  "selection \<lparr> newValue = ''cd\<newline>abc'', selection = Some (4, 4) \<rparr> =
     Some (lineOffsets [''cd'', ''abc''] ! 1 + 1, lineOffsets [''cd'', ''abc''] ! 1 + 1) \<and>
   [''cd'', ''abc''] ! 1 = [''abc'', ''cd''] ! 0"
proof -
  have h: "(0::int) \<le> 1" "(1::int) \<le> 3" "(3::int) \<le> int (length ''abc\<newline>cd'')"
    by simp_all
  have m: "moveSelectedLine ''abc\<newline>cd'' 1 3 Down False =
     Some \<lparr> newValue = ''cd\<newline>abc'', selection = Some (4, 4) \<rparr>"
    by code_simp
  have a: "lineNumberAt ''abc\<newline>cd'' 1 = 0" by code_simp
  have b: "lineNumberAt ''abc\<newline>cd'' 3 = 0" by code_simp
  have ab: "lineNumberAt ''abc\<newline>cd'' 1 = lineNumberAt ''abc\<newline>cd'' 3" unfolding a b ..
  have l: "split_nl ''cd\<newline>abc'' = [''cd'', ''abc'']" by code_simp
  have l0: "split_nl ''abc\<newline>cd'' = [''abc'', ''cd'']" by code_simp
  have o: "lineOffsets [''abc'', ''cd''] ! 0 = 0" by code_simp
  from single_line_caret [OF h ab m] show ?thesis
    unfolding Let_def a newLine_simps outcome.select_convs l l0 by (simp add: o)
qed

section \<open>A scenario of the specification\<close>

text \<open>
  C4, scenario B: copying the two lines of "one\\ntwo" downwards, with the selection
  from offset 0 to offset 7. The new text is "one\\ntwo\\none\\ntwo"; the pair given to
  \<open>setSelectionRange\<close> is (4, 11): the new start line is \<open>startLineNumber + 1\<close>, the
  second line of the original block, and not the first line of the inserted block.
\<close>

theorem scenario_B_copy_down:
  "moveSelectedLine ''one\<newline>two'' 0 7 Down True =
     Some \<lparr> newValue = ''one\<newline>two\<newline>one\<newline>two'', selection = Some (4, 11) \<rparr>"
  by code_simp

end
